theory Spec2Isabelle
  imports Main
begin

section \<open>Completions of calls into code outside the module\<close>

text \<open>
  A call either returns a value or throws; in both cases the mutations it made to the
  shared state stay. A thrown value is represented by its message.
\<close>

type_synonym exn = string

datatype ('a, 's) completion = Return 'a 's | Throw exn 's

fun state_of :: "('a, 's) completion \<Rightarrow> 's" where
  "state_of (Return a s) = s"
| "state_of (Throw e s) = s"

fun returns :: "('a, 's) completion \<Rightarrow> bool" where
  "returns (Return a s) = True"
| "returns (Throw e s) = False"

section \<open>The dependency cell: class \<open>Dep\<close>\<close>

text \<open>
  Objects are referred to by reference. A \<open>Dep\<close> reference is the position of the object
  in the list of all \<open>Dep\<close> objects constructed so far; a \<open>DepTarget\<close> reference is an
  opaque number. A slot of \<open>subs\<close> holds a reference or \<open>null\<close> (\<open>None\<close>). A method
  is only ever called on an object that was constructed: the properties that read a field
  of the cell \<open>this\<close> after a write assume that \<open>this\<close> is such a reference.
\<close>

type_synonym dep_ref = nat
type_synonym target_ref = nat

record Dep =
  id_Dep :: nat
  subs :: "target_ref option list"

text \<open>
  The state a \<open>Dep\<close> method can touch: the module variable \<open>uid\<close>, the static field
  \<open>Dep.target\<close> (\<open>None\<close> for \<open>undefined\<close> and \<open>null\<close>), the \<open>Dep\<close> objects, and the
  state of the rest of the program, which only code outside the module reads and writes.
  The counter is a JavaScript number that only ever holds a natural number.
\<close>

record 'x heap =
  uid :: nat
  target :: "target_ref option"
  deps :: "Dep list"
  rest :: 'x

text \<open>
  The interface \<open>DepTarget\<close>: an id and two methods. The methods are arbitrary code of
  the rest of the program, so they are arbitrary functions on the whole state.
\<close>

record 's DepTarget =
  id_DepTarget :: nat
  addDep :: "dep_ref \<Rightarrow> 's \<Rightarrow> (unit, 's) completion"
  update :: "'s \<Rightarrow> (unit, 's) completion"

type_synonym 'x targets = "target_ref \<Rightarrow> 'x heap DepTarget"

text \<open>The calls a \<open>Dep\<close> method makes on a target, in the order it makes them.\<close>

datatype target_call = AddDep target_ref dep_ref | Update target_ref

definition init_heap :: "'x \<Rightarrow> 'x heap" where
  "init_heap x = \<lparr>uid = 0, target = None, deps = [], rest = x\<rparr>"

text \<open>
  \<open>n + 1\<close> on JavaScript numbers, for a natural number \<open>n\<close> up to \<open>2 ^ 53\<close>. Below
  \<open>2 ^ 53\<close> the sum is exact; \<open>2 ^ 53 + 1\<close> is not a double and rounds back to
  \<open>2 ^ 53\<close>, so a counter that has reached \<open>2 ^ 53\<close> stays there.
\<close>

definition increment :: "nat \<Rightarrow> nat" where
  "increment n = (if n < 2 ^ 53 then n + 1 else n)"

text \<open>\<open>constructor() { this.id = uid++; this.subs = []; }\<close>, returning the new reference.\<close>

definition new_Dep :: "'x heap \<Rightarrow> dep_ref \<times> 'x heap" where
  "new_Dep h =
     (length (deps h),
      h\<lparr>uid := increment (uid h), deps := deps h @ [\<lparr>id_Dep = uid h, subs = []\<rparr>]\<rparr>)"

text \<open>\<open>addSub(sub) { this.subs.push(sub); }\<close>\<close>

definition addSub :: "dep_ref \<Rightarrow> target_ref \<Rightarrow> 'x heap \<Rightarrow> 'x heap" where
  "addSub this sub h =
     h\<lparr>deps := (deps h)[this := (deps h ! this)\<lparr>subs := subs (deps h ! this) @ [Some sub]\<rparr>]\<rparr>"

text \<open>\<open>depend() { if (Dep.target) { Dep.target.addDep(this); } }\<close>\<close>

definition depend ::
  "'x targets \<Rightarrow> dep_ref \<Rightarrow> 'x heap \<Rightarrow> target_call list \<times> (unit, 'x heap) completion" where
  "depend T this h =
     (case target h of
        None \<Rightarrow> ([], Return () h)
      | Some t \<Rightarrow> ([AddDep t this], addDep (T t) this h))"

text \<open>
  \<open>Array.prototype.forEach\<close> over an array nobody else holds: the callback runs on each
  element in index order; a throw ends the iteration and propagates. The result carries
  the elements the callback was invoked on.
\<close>

fun forEach ::
  "('a \<Rightarrow> 's \<Rightarrow> (unit, 's) completion) \<Rightarrow> 'a list \<Rightarrow> 's \<Rightarrow> 'a list \<times> (unit, 's) completion" where
  "forEach f [] s = ([], Return () s)"
| "forEach f (x # xs) s =
     (case f x s of
        Return _ s' \<Rightarrow> (case forEach f xs s' of (tr, c) \<Rightarrow> (x # tr, c))
      | Throw e s' \<Rightarrow> ([x], Throw e s'))"

text \<open>
  \<open>notify() { const subs = this.subs.filter((s) => Boolean(s));
              subs.forEach((sub) => { sub.update(); }); }\<close>
  An object reference is truthy and \<open>null\<close> is falsy, so the filter drops exactly the
  \<open>null\<close> slots.
\<close>

definition live :: "target_ref option list \<Rightarrow> target_ref list" where
  "live ss = map the (filter (\<lambda>s. s \<noteq> None) ss)"

definition notify ::
  "'x targets \<Rightarrow> dep_ref \<Rightarrow> 'x heap \<Rightarrow> target_call list \<times> (unit, 'x heap) completion" where
  "notify T this h =
     (let subs = live (subs (deps h ! this))
      in case forEach (\<lambda>sub. update (T sub)) subs h of (tr, c) \<Rightarrow> (map Update tr, c))"

subsection \<open>Client programs over the cell\<close>

text \<open>
  Code outside the class can also assign \<open>Dep.target\<close>, overwrite a slot of a cell's
  public \<open>subs\<close> array (a tombstone is written this way) and change its own state.
\<close>

definition set_slot :: "dep_ref \<Rightarrow> nat \<Rightarrow> target_ref option \<Rightarrow> 'x heap \<Rightarrow> 'x heap" where
  "set_slot d i v h =
     h\<lparr>deps := (deps h)[d := (deps h ! d)\<lparr>subs := (subs (deps h ! d))[i := v]\<rparr>]\<rparr>"

datatype 'x step =
    Construct
  | AddSub dep_ref target_ref
  | Depend dep_ref
  | Notify dep_ref
  | SetTarget "target_ref option"
  | SetSlot dep_ref nat "target_ref option"
  | SetRest 'x

text \<open>
  One step of a client program. A program only holds references to cells that were
  constructed, so a step naming another reference does nothing. A throw of a callback
  leaves the state as the callback left it; the program goes on from there, as a caller
  that catches would.
\<close>

fun exec_step :: "'x targets \<Rightarrow> 'x step \<Rightarrow> 'x heap \<Rightarrow> 'x heap" where
  "exec_step T Construct h = snd (new_Dep h)"
| "exec_step T (AddSub d t) h = (if d < length (deps h) then addSub d t h else h)"
| "exec_step T (Depend d) h =
     (if d < length (deps h) then state_of (snd (depend T d h)) else h)"
| "exec_step T (Notify d) h =
     (if d < length (deps h) then state_of (snd (notify T d h)) else h)"
| "exec_step T (SetTarget t) h = h\<lparr>target := t\<rparr>"
| "exec_step T (SetSlot d i v) h =
     (if d < length (deps h) \<and> i < length (subs (deps h ! d)) then set_slot d i v h else h)"
| "exec_step T (SetRest x) h = h\<lparr>rest := x\<rparr>"

definition exec :: "'x targets \<Rightarrow> 'x step list \<Rightarrow> 'x heap \<Rightarrow> 'x heap" where
  "exec T prog h = fold (exec_step T) prog h"




text \<open>
  As long as the counter is below \<open>2 ^ 53\<close>, the ids of the cells rise strictly in the
  order of construction and stay below the counter.
\<close>

definition ids_inv :: "'x heap \<Rightarrow> bool" where
  "ids_inv h \<longleftrightarrow>
     (uid h < 2 ^ 53 \<longrightarrow>
        sorted_wrt (<) (map id_Dep (deps h)) \<and> (\<forall>d \<in> set (deps h). id_Dep d < uid h))"

subsection \<open>A concrete program state for the examples\<close>

text \<open>
  Targets whose \<open>addDep\<close> subscribes unconditionally. The \<open>update\<close> of target 1 writes
  a tombstone over slot 1 of cell 0 and subscribes target 3 to cell 0; the \<open>update\<close>
  of target 4 throws; every other \<open>update\<close> appends the target to a log kept in the
  state of the rest of the program.
\<close>

definition demo_targets :: "target_ref list targets" where
  "demo_targets t =
     \<lparr>id_DepTarget = t,
      addDep = (\<lambda>d h. Return () (addSub d t h)),
      update = (\<lambda>h.
        if t = 1 then Return () (addSub 0 3 (set_slot 0 1 None (h\<lparr>rest := rest h @ [t]\<rparr>)))
        else if t = 4 then Throw ''boom'' h
        else Return () (h\<lparr>rest := rest h @ [t]\<rparr>))\<rparr>"


definition demo_heap :: "target_ref option list \<Rightarrow> target_ref list heap" where
  "demo_heap ss = \<lparr>uid = 1, target = None, deps = [\<lparr>id_Dep = 0, subs = ss\<rparr>], rest = []\<rparr>"

text \<open>A client program that constructs three cells and notifies the first.\<close>

definition demo_prog :: "target_ref list step list" where
  "demo_prog =
     [Construct, SetTarget (Some 5), Depend 0, AddSub 0 1, Construct, Notify 0, Construct]"



section \<open>The reactive effect\<close>

text \<open>
  Modelled from the spec: the wrapped function of a reactive effect, whose class is not
  among the sources. The spec has it an arbitrary side-effecting function; of what it can
  do, the model keeps what goes through the core: it reads a cell (\<open>depend()\<close>), writes
  a cell (\<open>notify()\<close>), runs or stops an effect, raises, and assigns and tests variables
  of the program, on which its branches may depend.
\<close>

datatype 'v code =
    Done
  | Raise exn
  | Read dep_ref "'v code"
  | Write dep_ref "'v code"
  | Run target_ref "'v code"
  | Stop target_ref "'v code"
  | Assign "'v \<Rightarrow> 'v" "'v code"
  | Test "'v \<Rightarrow> bool" "'v code" "'v code"

text \<open>
  Modelled from the spec: the state of a reactive effect. The spec names "the wrapped
  function, a set of Dependency Cells it is currently linked to" and the flag
  "active/stopped". \<open>started\<close> is not state of the effect: it counts the runs of the
  effect that got past the stopped check, so that a property can say that a run was not
  re-entered.
\<close>

record 'v ReactiveEffect =
  active :: bool
  links :: "dep_ref list"
  fn :: "'v code"
  started :: nat

text \<open>
  The state of the rest of the program: the effects, which are its \<open>DepTarget\<close>
  objects, an effect's reference being its position in the list; and its variables.
\<close>

record 'v reactive =
  effects :: "'v ReactiveEffect list"
  vars :: 'v

type_synonym 'v world = "'v reactive heap"

definition effect :: "'v world \<Rightarrow> target_ref \<Rightarrow> 'v ReactiveEffect" where
  "effect h e = effects (rest h) ! e"

definition modify_effect ::
  "target_ref \<Rightarrow> ('v ReactiveEffect \<Rightarrow> 'v ReactiveEffect) \<Rightarrow> 'v world \<Rightarrow> 'v world" where
  "modify_effect e f h =
     h\<lparr>rest := (rest h)\<lparr>effects := (effects (rest h))[e := f (effects (rest h) ! e)]\<rparr>\<rparr>"

text \<open>
  Modelled from the spec: the effect's half of the bidirectional edge, the cell put into
  the effect's link set.
\<close>

definition link :: "target_ref \<Rightarrow> dep_ref \<Rightarrow> 'v world \<Rightarrow> 'v world" where
  "link e cell h = modify_effect e (\<lambda>x. x\<lparr>links := links x @ [cell]\<rparr>) h"

text \<open>
  Modelled from the spec: \<open>addDep(cell)\<close> of the effect, which is not among the
  sources. "If \<open>cell\<close> is not already in this effect's current link set, add it to both
  the effect's link set and the cell's subscriber list (bidirectional edge); otherwise
  no-op."
\<close>

definition effect_addDep :: "target_ref \<Rightarrow> dep_ref \<Rightarrow> 'v world \<Rightarrow> 'v world" where
  "effect_addDep e cell h =
     (if cell \<in> set (links (effect h e)) then h else addSub cell e (link e cell h))"

text \<open>
  Modelled from the spec: the removal of an effect from a cell's subscriber list, which
  is not among the sources. The spec has a removed subscriber leave a tombstone, so that
  the other slots keep their indices.
\<close>

definition unsubscribe :: "target_ref \<Rightarrow> dep_ref \<Rightarrow> 'v world \<Rightarrow> 'v world" where
  "unsubscribe e cell h =
     h\<lparr>deps := (deps h)[cell := (deps h ! cell)
          \<lparr>subs := map (\<lambda>s. if s = Some e then None else s) (subs (deps h ! cell))\<rparr>]\<rparr>"

text \<open>
  Modelled from the spec: step (1) of \<open>run()\<close>. "For every Cell currently linked to
  this effect, remove this effect from that Cell's subscriber list, then clear this
  effect's own link set."
\<close>

definition cleanup :: "target_ref \<Rightarrow> 'v world \<Rightarrow> 'v world" where
  "cleanup e h =
     modify_effect e (\<lambda>x. x\<lparr>links := []\<rparr>) (fold (unsubscribe e) (links (effect h e)) h)"

text \<open>
  Modelled from the spec: \<open>stop()\<close> of the effect, which is not among the sources. It
  is "idempotent; unlinks from every currently-tracked Cell, marks inert". Scopes are not
  modelled.
\<close>

definition stop :: "target_ref \<Rightarrow> 'v world \<Rightarrow> 'v world" where
  "stop e h = modify_effect e (\<lambda>x. x\<lparr>active := False\<rparr>) (cleanup e h)"

text \<open>One piece of traced code after another; a throw ends the sequence.\<close>

definition andThen ::
  "'e list \<times> (unit, 's) completion \<Rightarrow> ('s \<Rightarrow> 'e list \<times> (unit, 's) completion)
     \<Rightarrow> 'e list \<times> (unit, 's) completion" where
  "andThen first next =
     (case first of
        (tr, Return _ h) \<Rightarrow> (case next h of (tr', c) \<Rightarrow> (tr @ tr', c))
      | (tr, Throw x h) \<Rightarrow> (tr, Throw x h))"

text \<open>
  Modelled from the spec: step (3) of \<open>run()\<close>, the execution of the wrapped function.
  A read calls \<open>depend()\<close> and a write calls \<open>notify()\<close>, the methods of the source;
  running another effect is what its \<open>update()\<close> does.
\<close>

primrec execute ::
  "'v reactive targets \<Rightarrow> 'v code \<Rightarrow> 'v world \<Rightarrow> target_call list \<times> (unit, 'v world) completion" where
  "execute T Done h = ([], Return () h)"
| "execute T (Raise x) h = ([], Throw x h)"
| "execute T (Read cell k) h = andThen (depend T cell h) (execute T k)"
| "execute T (Write cell k) h = andThen (notify T cell h) (execute T k)"
| "execute T (Run e k) h = andThen ([], update (T e) h) (execute T k)"
| "execute T (Stop e k) h = execute T k (stop e h)"
| "execute T (Assign f k) h = execute T k (h\<lparr>rest := (rest h)\<lparr>vars := f (vars (rest h))\<rparr>\<rparr>)"
| "execute T (Test p k1 k2) h = (if p (vars (rest h)) then execute T k1 h else execute T k2 h)"

text \<open>
  Modelled from the spec: \<open>run()\<close> of the effect, which is not among the sources. It
  "fails silently (returns without tracking) if the effect is stopped. Otherwise: (1)
  clean up; (2) push this effect onto the Tracking Context stack as the active target;
  (3) execute the wrapped function, which may raise during execution - the Tracking
  Context must still be restored; (4) pop the Tracking Context back to the previous
  value; (5) return the function's result (or propagate its failure after unwind)."
  The tracking context is \<open>Dep.target\<close>. \<open>T\<close> holds the targets the function reaches
  through the cells.
\<close>

definition run ::
  "'v reactive targets \<Rightarrow> target_ref \<Rightarrow> 'v world \<Rightarrow> target_call list \<times> (unit, 'v world) completion" where
  "run T e h =
     (if \<not> active (effect h e) then ([], Return () h)
      else
        let h0 = modify_effect e (\<lambda>x. x\<lparr>started := started x + 1\<rparr>) h;
            h1 = cleanup e h0;
            previous = target h1;
            h2 = h1\<lparr>target := Some e\<rparr>
        in case execute T (fn (effect h2 e)) h2 of
             (tr, Return _ h3) \<Rightarrow> (tr, Return () (h3\<lparr>target := previous\<rparr>))
           | (tr, Throw x h3) \<Rightarrow> (tr, Throw x (h3\<lparr>target := previous\<rparr>)))"

text \<open>
  Modelled from the spec: the effects as targets. \<open>addDep\<close> is as above, and
  \<open>update()\<close> has its "default behavior", \<open>run()\<close>. A run inside a run inside a run
  nests calls without bound when the effects keep triggering each other; JavaScript then
  throws a \<open>RangeError\<close>. The table is indexed by the depth of nesting still
  available: at depth 0 \<open>update()\<close> throws.
\<close>

primrec effect_targets :: "nat \<Rightarrow> 'v reactive targets" where
  "effect_targets 0 e =
     \<lparr>id_DepTarget = e,
      addDep = (\<lambda>cell h. Return () (effect_addDep e cell h)),
      update = (\<lambda>h. Throw ''RangeError'' h)\<rparr>"
| "effect_targets (Suc n) e =
     \<lparr>id_DepTarget = e,
      addDep = (\<lambda>cell h. Return () (effect_addDep e cell h)),
      update = (\<lambda>h. snd (run (effect_targets n) e h))\<rparr>"

text \<open>The cells a piece of code reads before anything else, and whether it then raises.\<close>

primrec only_reads :: "'v code \<Rightarrow> bool" where
  "only_reads Done = True"
| "only_reads (Raise x) = True"
| "only_reads (Read cell k) = only_reads k"
| "only_reads (Write cell k) = False"
| "only_reads (Run e k) = False"
| "only_reads (Stop e k) = False"
| "only_reads (Assign f k) = False"
| "only_reads (Test p k1 k2) = False"

primrec reads :: "'v code \<Rightarrow> dep_ref list" where
  "reads Done = []"
| "reads (Raise x) = []"
| "reads (Read cell k) = cell # reads k"
| "reads (Write cell k) = []"
| "reads (Run e k) = []"
| "reads (Stop e k) = []"
| "reads (Assign f k) = []"
| "reads (Test p k1 k2) = []"

primrec raises :: "'v code \<Rightarrow> bool" where
  "raises Done = False"
| "raises (Raise x) = True"
| "raises (Read cell k) = raises k"
| "raises (Write cell k) = False"
| "raises (Run e k) = False"
| "raises (Stop e k) = False"
| "raises (Assign f k) = False"
| "raises (Test p k1 k2) = False"

text \<open>The cells and effects a piece of code names exist.\<close>

primrec code_ok :: "nat \<Rightarrow> nat \<Rightarrow> 'v code \<Rightarrow> bool" where
  "code_ok nc ne Done = True"
| "code_ok nc ne (Raise x) = True"
| "code_ok nc ne (Read cell k) = (cell < nc \<and> code_ok nc ne k)"
| "code_ok nc ne (Write cell k) = (cell < nc \<and> code_ok nc ne k)"
| "code_ok nc ne (Run e k) = (e < ne \<and> code_ok nc ne k)"
| "code_ok nc ne (Stop e k) = (e < ne \<and> code_ok nc ne k)"
| "code_ok nc ne (Assign f k) = code_ok nc ne k"
| "code_ok nc ne (Test p k1 k2) = (code_ok nc ne k1 \<and> code_ok nc ne k2)"

text \<open>
  The links are consistent when every link of an effect is a cell, no effect has a cell
  twice among its links, and a cell holds a target in exactly one slot when the target is
  an effect linked to the cell, and in no slot otherwise.
\<close>

definition linked :: "'v world \<Rightarrow> target_ref \<Rightarrow> dep_ref \<Rightarrow> bool" where
  "linked h e cell \<longleftrightarrow> e < length (effects (rest h)) \<and> cell \<in> set (links (effect h e))"

definition consistent :: "'v world \<Rightarrow> bool" where
  "consistent h \<longleftrightarrow>
     (\<forall>e < length (effects (rest h)). distinct (links (effect h e)) \<and>
        (\<forall>cell \<in> set (links (effect h e)). cell < length (deps h))) \<and>
     (\<forall>cell < length (deps h). \<forall>e.
        count_list (subs (deps h ! cell)) (Some e) = (if linked h e cell then 1 else 0))"

text \<open>A state is well formed when its links are consistent and its functions name
  cells and effects that exist.\<close>

definition well_formed :: "'v world \<Rightarrow> bool" where
  "well_formed h \<longleftrightarrow>
     consistent h \<and>
     (\<forall>e < length (effects (rest h)).
        code_ok (length (deps h)) (length (effects (rest h))) (fn (effect h e)))"

text \<open>
  What code of the effects does to a state, but for the effects in \<open>X\<close>: no cell and
  no effect comes or goes, no function changes, no count of runs goes down, no stopped
  effect becomes active, and an effect outside \<open>X\<close> that was not run and is still
  active has the links it had.
\<close>

definition evolves :: "target_ref set \<Rightarrow> 'v world \<Rightarrow> 'v world \<Rightarrow> bool" where
  "evolves X h h' \<longleftrightarrow>
     length (deps h') = length (deps h) \<and>
     length (effects (rest h')) = length (effects (rest h)) \<and>
     (\<forall>x < length (effects (rest h)).
        fn (effect h' x) = fn (effect h x) \<and>
        started (effect h x) \<le> started (effect h' x) \<and>
        (active (effect h' x) \<longrightarrow> active (effect h x)) \<and>
        (x \<notin> X \<longrightarrow> started (effect h' x) = started (effect h x) \<longrightarrow> active (effect h' x) \<longrightarrow>
           links (effect h' x) = links (effect h x)))"

text \<open>
  What is asked of a table of targets whose \<open>update\<close> may run effects: \<open>addDep\<close>
  is the effect's, and an \<open>update\<close> from a well-formed state, whether it returns or
  throws, leaves the links consistent, leaves alone the links of the effects it neither
  ran nor stopped, and gives the tracking context back.
\<close>

definition nests :: "'v reactive targets \<Rightarrow> bool" where
  "nests T \<longleftrightarrow>
     (\<forall>t cell h. addDep (T t) cell h = Return () (effect_addDep t cell h)) \<and>
     (\<forall>t h. well_formed h \<longrightarrow> t < length (effects (rest h)) \<longrightarrow>
        consistent (state_of (update (T t) h)) \<and>
        evolves {} h (state_of (update (T t) h)) \<and>
        target (state_of (update (T t) h)) = target h)"

text \<open>
  What the function of effect \<open>e\<close> does while \<open>e\<close> is the active target, from a
  state \<open>h\<close> to a state \<open>h'\<close> with the calls \<open>tr\<close>: the links stay consistent,
  only the links of \<open>e\<close> and of the effects run or stopped change, \<open>e\<close> is still the
  active target, and as long as \<open>e\<close> is not run again or stopped its link set grows by
  the cells of the \<open>addDep\<close> calls made on it.
\<close>

definition tracks :: "target_ref \<Rightarrow> 'v world \<Rightarrow> target_call list \<Rightarrow> 'v world \<Rightarrow> bool" where
  "tracks e h tr h' \<longleftrightarrow>
     consistent h' \<and> evolves {e} h h' \<and> target h' = Some e \<and>
     (started (effect h' e) = started (effect h e) \<longrightarrow> active (effect h' e) \<longrightarrow>
        set (links (effect h' e)) = set (links (effect h e)) \<union> {cell. AddDep e cell \<in> set tr})"

subsection \<open>Concrete effects for the examples\<close>

text \<open>
  A state with the given subscriber lists of the cells, the given effects and variables,
  and no active target.
\<close>

definition effect_world :: "target_ref option list list \<Rightarrow> 'v ReactiveEffect list \<Rightarrow> 'v \<Rightarrow> 'v world" where
  "effect_world ss es v =
     \<lparr>uid = length ss, target = None,
      deps = map (\<lambda>(i, s). \<lparr>id_Dep = i, subs = s\<rparr>) (enumerate 0 ss),
      rest = \<lparr>effects = es, vars = v\<rparr>\<rparr>"






text \<open>
  Two cells and one effect, the active target, with no links; and code that reads cell 0
  twice, cell 1, and cell 0 again.
\<close>

definition rereader :: "unit code" where
  "rereader = Read 0 (Read 0 (Read 1 (Read 0 Done)))"

definition rereader_world :: "unit world" where
  "rereader_world =
     (effect_world [[], []] [\<lparr>active = True, links = [], fn = rereader, started = 0\<rparr>] ())
       \<lparr>target := Some 0\<rparr>"

section \<open>The component module: \<open>runtime-core/component.ts\<close>\<close>

subsection \<open>Sequencing of traced, throwing code\<close>

text \<open>
  A piece of code maps the state to the calls it made on code outside the module, in
  order, and to its completion.
\<close>

type_synonym ('e, 'a, 's) prog = "'s \<Rightarrow> 'e list \<times> ('a, 's) completion"

definition ret :: "'a \<Rightarrow> ('e, 'a, 's) prog" where
  "ret a s = ([], Return a s)"

definition bnd :: "('e, 'a, 's) prog \<Rightarrow> ('a \<Rightarrow> ('e, 'b, 's) prog) \<Rightarrow> ('e, 'b, 's) prog" where
  "bnd m f s =
     (case m s of
        (tr, Return a s') \<Rightarrow> (case f a s' of (tr', c) \<Rightarrow> (tr @ tr', c))
      | (tr, Throw e s') \<Rightarrow> (tr, Throw e s'))"

definition read :: "('s \<Rightarrow> 'a) \<Rightarrow> ('e, 'a, 's) prog" where
  "read g s = ([], Return (g s) s)"

definition modify :: "('s \<Rightarrow> 's) \<Rightarrow> ('e, unit, 's) prog" where
  "modify g s = ([], Return () (g s))"

definition call :: "'e \<Rightarrow> ('s \<Rightarrow> ('a, 's) completion) \<Rightarrow> ('e, 'a, 's) prog" where
  "call ev g s = ([ev], g s)"

subsection \<open>Data\<close>

text \<open>
  Objects and functions of the rest of the program are opaque references. The value a
  \<open>setup\<close> function returns is a function, an object, or anything else (\<open>null\<close>,
  \<open>undefined\<close>, a primitive): this is all \<open>isFunction\<close> and \<open>isObject\<close> of
  \<open>../shared\<close> tell apart.
\<close>

type_synonym instance_ref = nat
type_synonym options_ref = nat
type_synonym scope_ref = nat
type_synonym obj = nat

datatype jsval = Function obj | Object obj | Primitive

fun isFunction :: "jsval \<Rightarrow> bool" where
  "isFunction (Function f) = True"
| "isFunction v = False"

fun isObject :: "jsval \<Rightarrow> bool" where
  "isObject (Object x) = True"
| "isObject v = False"

text \<open>
  The fields of a \<open>ComponentOptions\<close> object the module reads; \<open>setup_fn\<close> is the
  option \<open>setup\<close>. The object is shared and mutable: an instance holds a reference
  to it.
\<close>

record ComponentOptions =
  setup_fn :: "obj option"
  render :: "obj option"
  template :: "string option"

text \<open>\<open>SetupContext = { emit: EmitFn }\<close>\<close>

datatype SetupContext = SetupContext obj

text \<open>
  A \<open>Data\<close> object: one of the program's objects, or what \<open>proxyRefs\<close> of
  \<open>../reactivity\<close> makes of the object a \<open>setup\<close> function returned. \<open>proxyRefs\<close>
  is taken as a pure wrapper.
\<close>

datatype Data = Plain obj | ProxyRefs jsval

datatype ComponentPublicInstance = Proxy obj

text \<open>
  The fields of \<open>ComponentInternalInstance\<close> the module reads or writes after the
  instance is created; \<open>type\<close> refers to the options object, \<open>vnode_props\<close> is
  \<open>vnode.props\<close>, \<open>render_i\<close> is the instance's \<open>render\<close>.
\<close>

record ComponentInternalInstance =
  type :: options_ref
  vnode_props :: obj
  proxy :: "ComponentPublicInstance option"
  scope :: scope_ref
  render_i :: "jsval option"
  ctx :: obj
  props :: obj
  emit :: obj
  setupState :: Data
  setupContext :: "SetupContext option"

text \<open>
  The state: the module variables \<open>currentInstance\<close> and \<open>compile\<close>, the component
  instances and the options objects by reference, and the state of the rest of the
  program.
\<close>

record 'x runtime =
  currentInstance :: "instance_ref option"
  compile :: "obj option"
  instances :: "ComponentInternalInstance list"
  options :: "ComponentOptions list"
  program :: 'x

text \<open>
  Modelled from the spec: \<open>EffectScope.on()\<close> and \<open>EffectScope.off()\<close>, whose class
  is not among the sources. The spec describes them as the "explicit enter/leave of
  ambient scope" and gives them no failure, so they are state transformers; what they do
  to the state is left open.

  The other code the module calls and that is not part of it, \<open>initProps\<close>,
  \<open>applyOptions\<close>, the application of a \<open>setup\<close> function and of the registered
  compiler, is arbitrary code on the whole state and may throw.
\<close>

record 's externs =
  initProps :: "instance_ref \<Rightarrow> obj \<Rightarrow> 's \<Rightarrow> (unit, 's) completion"
  call_setup :: "obj \<Rightarrow> obj \<Rightarrow> SetupContext \<Rightarrow> 's \<Rightarrow> (jsval, 's) completion"
  call_compile :: "obj \<Rightarrow> string \<Rightarrow> 's \<Rightarrow> (jsval, 's) completion"
  applyOptions :: "instance_ref \<Rightarrow> 's \<Rightarrow> (unit, 's) completion"
  scope_on :: "scope_ref \<Rightarrow> 's \<Rightarrow> 's"
  scope_off :: "scope_ref \<Rightarrow> 's \<Rightarrow> 's"

text \<open>
  The calls the module makes on code outside it. \<open>ScopeRun\<close> stands for a call of
  \<open>EffectScope.run\<close>; no function below makes it.
\<close>

datatype event =
    InitProps instance_ref
  | ScopeOn scope_ref
  | ScopeOff scope_ref
  | ScopeRun scope_ref
  | Setup obj
  | Compile obj string
  | ApplyOptions instance_ref

subsection \<open>Functions\<close>

definition field :: "instance_ref \<Rightarrow> (ComponentInternalInstance \<Rightarrow> 'a) \<Rightarrow> 'x runtime \<Rightarrow> 'a" where
  "field instance f w = f (instances w ! instance)"

definition option_of :: "options_ref \<Rightarrow> (ComponentOptions \<Rightarrow> 'a) \<Rightarrow> 'x runtime \<Rightarrow> 'a" where
  "option_of Component f w = f (options w ! Component)"

definition assign ::
  "instance_ref \<Rightarrow> (ComponentInternalInstance \<Rightarrow> ComponentInternalInstance) \<Rightarrow>
   'x runtime \<Rightarrow> 'x runtime" where
  "assign instance f w = w\<lparr>instances := (instances w)[instance := f (instances w ! instance)]\<rparr>"

text \<open>\<open>getCurrentInstance = () => currentInstance\<close>\<close>

definition getCurrentInstance :: "'x runtime \<Rightarrow> instance_ref option" where
  "getCurrentInstance w = currentInstance w"

text \<open>\<open>setCurrentInstance = (instance) => { currentInstance = instance; instance.scope.on(); }\<close>\<close>

definition setCurrentInstance ::
  "'x runtime externs \<Rightarrow> instance_ref \<Rightarrow> (event, unit, 'x runtime) prog" where
  "setCurrentInstance X instance =
     bnd (modify (\<lambda>w. w\<lparr>currentInstance := Some instance\<rparr>)) (\<lambda>_.
     bnd (read (field instance scope)) (\<lambda>s.
     call (ScopeOn s) (\<lambda>w. Return () (scope_on X s w))))"

text \<open>
  \<open>unsetCurrentInstance = () => { currentInstance && currentInstance.scope.off();
                                   currentInstance = null; }\<close>
\<close>

definition unsetCurrentInstance :: "'x runtime externs \<Rightarrow> (event, unit, 'x runtime) prog" where
  "unsetCurrentInstance X =
     bnd (read currentInstance) (\<lambda>ci.
     bnd (case ci of
            None \<Rightarrow> ret ()
          | Some i \<Rightarrow>
              bnd (read (field i scope)) (\<lambda>s.
              call (ScopeOff s) (\<lambda>w. Return () (scope_off X s w)))) (\<lambda>_.
     modify (\<lambda>w. w\<lparr>currentInstance := None\<rparr>)))"

text \<open>\<open>registerRuntimeCompiler(_compile) { compile = _compile; }\<close>\<close>

definition registerRuntimeCompiler :: "obj \<Rightarrow> 'x runtime \<Rightarrow> 'x runtime" where
  "registerRuntimeCompiler c w = w\<lparr>compile := Some c\<rparr>"

text \<open>\<open>createSetupContext(instance) { return { emit: instance.emit }; }\<close>\<close>

definition createSetupContext :: "instance_ref \<Rightarrow> (event, SetupContext, 'x runtime) prog" where
  "createSetupContext instance = bnd (read (field instance emit)) (\<lambda>e. ret (SetupContext e))"

text \<open>
  \<open>setupComponent\<close>, statement by statement. \<open>Component\<close> is a reference to the
  options object: \<open>setup\<close> is read from it before the call of \<open>setup\<close>, \<open>render\<close>
  and \<open>template\<close> after it.
\<close>

definition setupComponent ::
  "'x runtime externs \<Rightarrow> instance_ref \<Rightarrow> (event, unit, 'x runtime) prog" where
  "setupComponent X instance =
     bnd (read (field instance vnode_props)) (\<lambda>vprops.
     bnd (call (InitProps instance) (initProps X instance vprops)) (\<lambda>_.
     bnd (read (field instance type)) (\<lambda>Component.
     bnd (modify (assign instance (\<lambda>i. i\<lparr>proxy := Some (Proxy (ctx i))\<rparr>))) (\<lambda>_.
     bnd (read (option_of Component setup_fn)) (\<lambda>setup.
     bnd (case setup of
            None \<Rightarrow> ret ()
          | Some setup \<Rightarrow>
              bnd (createSetupContext instance) (\<lambda>setupContext.
              bnd (modify (assign instance (\<lambda>i. i\<lparr>setupContext := Some setupContext\<rparr>))) (\<lambda>_.
              bnd (setCurrentInstance X instance) (\<lambda>_.
              bnd (read (field instance props)) (\<lambda>p.
              bnd (call (Setup setup) (call_setup X setup p setupContext)) (\<lambda>setupResult.
              bnd (if isFunction setupResult
                   then modify (assign instance (\<lambda>i. i\<lparr>render_i := Some setupResult\<rparr>))
                   else if isObject setupResult
                   then modify (assign instance (\<lambda>i. i\<lparr>setupState := ProxyRefs setupResult\<rparr>))
                   else ret ()) (\<lambda>_.
              unsetCurrentInstance X))))))) (\<lambda>_.
     bnd (read compile) (\<lambda>compiler.
     bnd (case compiler of
            None \<Rightarrow> ret ()
          | Some c \<Rightarrow>
              bnd (read (option_of Component render)) (\<lambda>rendering.
              if rendering = None
              then bnd (read (option_of Component template)) (\<lambda>t.
                   let template = (case t of None \<Rightarrow> [] | Some t \<Rightarrow> t)
                   in if template \<noteq> []
                      then bnd (call (Compile c template) (call_compile X c template)) (\<lambda>r.
                           modify (assign instance (\<lambda>i. i\<lparr>render_i := Some r\<rparr>)))
                      else ret ())
              else ret ())) (\<lambda>_.
     bnd (setCurrentInstance X instance) (\<lambda>_.
     bnd (call (ApplyOptions instance) (applyOptions X instance)) (\<lambda>_.
     unsetCurrentInstance X))))))))))"

text \<open>
  What \<open>unsetCurrentInstance\<close> does from a state: the call it makes, if any, and the
  state it leaves.
\<close>

definition unset_calls :: "'x runtime \<Rightarrow> event list" where
  "unset_calls w =
     (case currentInstance w of None \<Rightarrow> [] | Some j \<Rightarrow> [ScopeOff (scope (instances w ! j))])"

definition unset_state :: "'x runtime externs \<Rightarrow> 'x runtime \<Rightarrow> 'x runtime" where
  "unset_state X w =
     (case currentInstance w of
        None \<Rightarrow> w
      | Some j \<Rightarrow> (scope_off X (scope (instances w ! j)) w)\<lparr>currentInstance := None\<rparr>)"

text \<open>
  The compiler and the template \<open>setupComponent\<close> compiles from a state, if it
  compiles: a compiler is registered, the options object has no \<open>render\<close>, and its
  \<open>template\<close> is a non-empty string.
\<close>

definition compiles :: "options_ref \<Rightarrow> 'x runtime \<Rightarrow> (obj \<times> string) option" where
  "compiles Component w =
     (case compile w of
        None \<Rightarrow> None
      | Some c \<Rightarrow>
          if render (options w ! Component) = None
          then (case template (options w ! Component) of
                  None \<Rightarrow> None
                | Some t \<Rightarrow> if t \<noteq> [] then Some (c, t) else None)
          else None)"

text \<open>A piece of code runs from a state with a trace to a value and a final state.\<close>

definition runs :: "('e, 'a, 's) prog \<Rightarrow> 's \<Rightarrow> 'e list \<Rightarrow> 'a \<Rightarrow> 's \<Rightarrow> bool" where
  "runs m s tr a s' \<longleftrightarrow> m s = (tr, Return a s')"

subsection \<open>A concrete component for the examples\<close>

text \<open>
  Outside code that logs each call in the state of the rest of the program, and one
  instance of a component with a \<open>setup\<close> function and a template.
\<close>

definition demo_externs :: "nat list runtime externs" where
  "demo_externs =
     \<lparr>initProps = (\<lambda>i p w. Return () (w\<lparr>program := program w @ [1]\<rparr>)),
      call_setup = (\<lambda>f p c w. Return (Object 9) (w\<lparr>program := program w @ [2]\<rparr>)),
      call_compile = (\<lambda>c t w. Return (Function 8) (w\<lparr>program := program w @ [3]\<rparr>)),
      applyOptions = (\<lambda>i w. Return () (w\<lparr>program := program w @ [4]\<rparr>)),
      scope_on = (\<lambda>s w. w\<lparr>program := program w @ [5]\<rparr>),
      scope_off = (\<lambda>s w. w\<lparr>program := program w @ [6]\<rparr>)\<rparr>"

definition demo_runtime :: "nat list runtime" where
  "demo_runtime =
     \<lparr>currentInstance = None, compile = Some 4,
      instances =
        [\<lparr>type = 0, vnode_props = 0, proxy = None, scope = 7, render_i = None, ctx = 1,
          props = 2, emit = 3, setupState = Plain 6, setupContext = None\<rparr>],
      options = [\<lparr>setup_fn = Some 5, render = None, template = Some ''<p/>''\<rparr>],
      program = []\<rparr>"

text \<open>
  A second instance, of a component without \<open>setup\<close>, \<open>render\<close> or \<open>template\<close>,
  and outside code whose \<open>setup\<close> function sets this second component up before it
  returns, as a function that mounts a child component does. The calls of \<open>on()\<close> and
  \<open>off()\<close> made for the first component are logged with the scope they are made on.
\<close>

definition nested_runtime :: "nat list runtime" where
  "nested_runtime =
     demo_runtime
       \<lparr>instances := instances demo_runtime @
          [\<lparr>type = 1, vnode_props = 10, proxy = None, scope = 8, render_i = None, ctx = 11,
            props = 12, emit = 13, setupState = Plain 16, setupContext = None\<rparr>],
        options := options demo_runtime @ [\<lparr>setup_fn = None, render = None, template = None\<rparr>]\<rparr>"

definition nesting_externs :: "nat list runtime externs" where
  "nesting_externs =
     demo_externs
       \<lparr>call_setup := (\<lambda>f p c w.
          Return (Object 9) (state_of (snd (setupComponent demo_externs 1 w)))),
        scope_on := (\<lambda>s w. w\<lparr>program := program w @ [100 + s]\<rparr>),
        scope_off := (\<lambda>s w. w\<lparr>program := program w @ [200 + s]\<rparr>)\<rparr>"

section \<open>Properties of the dependency cell\<close>

subsection \<open>Iteration\<close>



lemma forEach_invariant:
  assumes "P s" and "\<And>x s. P s \<Longrightarrow> P (state_of (f x s))"
  shows "P (state_of (snd (forEach f xs s)))"
  using assms(1)
proof (induction xs arbitrary: s)
  case Nil
  then show ?case by simp
next
  case (Cons x xs)
  from Cons.prems assms(2) have px: "P (state_of (f x s))" by blast
  show ?case
  proof (cases "f x s")
    case (Return u s')
    with px have "P s'" by simp
    from Cons.IH [OF this] Return show ?thesis by (cases "forEach f xs s'") auto
  next
    case (Throw e s')
    with px show ?thesis by simp
  qed
qed

lemma forEach_invariant_on:
  assumes "P s" and "\<And>x s. x \<in> set xs \<Longrightarrow> P s \<Longrightarrow> P (state_of (f x s))"
  shows "P (state_of (snd (forEach f xs s)))"
  using assms
proof (induction xs arbitrary: s)
  case Nil
  then show ?case by simp
next
  case (Cons x xs)
  from Cons.prems have px: "P (state_of (f x s))" by simp
  show ?case
  proof (cases "f x s")
    case (Return u s')
    with px have "P s'" by simp
    then have "P (state_of (snd (forEach f xs s')))"
      by (rule Cons.IH) (simp add: Cons.prems(2))
    with Return show ?thesis by (cases "forEach f xs s'") auto
  next
    case (Throw e s')
    with px show ?thesis by simp
  qed
qed

lemma notify_forEach:
  "notify T this h = (tr, c) \<Longrightarrow>
     \<exists>tr'. forEach (\<lambda>sub. update (T sub)) (live (subs (deps h ! this))) h = (tr', c) \<and>
           tr = map Update tr'"
  by (auto simp: notify_def Let_def split: prod.splits)

subsection \<open>Subscribing\<close>

text \<open>
  Claim C6. \<open>addSub\<close> appends the target to the end of the cell's subscriber list
  without any uniqueness check: calling it twice in succession with the same target
  leaves two more entries of that target at the end of the list.
\<close>

theorem addSub_appends:
  "this < length (deps h) \<Longrightarrow>
     subs (deps (addSub this sub h) ! this) = subs (deps h ! this) @ [Some sub] \<and>
     subs (deps (addSub this sub (addSub this sub h)) ! this)
       = subs (deps h ! this) @ [Some sub, Some sub] \<and>
     count_list (subs (deps (addSub this sub (addSub this sub h)) ! this)) (Some sub)
       = count_list (subs (deps h ! this)) (Some sub) + 2"
  by (simp add: addSub_def)

theorem addSub_appends_witness:
  "(0::nat) < length (deps (demo_heap [Some 2, None])) \<and>
   subs (deps (addSub 0 2 (demo_heap [Some 2, None])) ! 0) = [Some 2, None, Some 2] \<and>
   subs (deps (addSub 0 2 (addSub 0 2 (demo_heap [Some 2, None]))) ! 0)
     = [Some 2, None, Some 2, Some 2] \<and>
   count_list (subs (deps (addSub 0 2 (addSub 0 2 (demo_heap [Some 2, None]))) ! 0)) (Some 2) = 3"
  using addSub_appends [of 0 "demo_heap [Some 2, None]" 2]
  by (simp add: demo_heap_def)

text \<open>
  Claim C5. With no active target, \<open>depend\<close> makes no call and returns the state as it
  was. With an active target \<open>t\<close>, \<open>depend\<close> makes exactly one call,
  \<open>t.addDep(this)\<close>, and its completion and final state are those of that call: the
  cell writes nothing itself.
\<close>

theorem depend_delegates:
  "(target h = None \<longrightarrow> depend T this h = ([], Return () h)) \<and>
   (\<forall>t. target h = Some t \<longrightarrow> depend T this h = ([AddDep t this], addDep (T t) this h))"
  by (simp add: depend_def)

theorem depend_delegates_witness:
  "target (demo_heap []) = None \<and>
   depend demo_targets 0 (demo_heap []) = ([], Return () (demo_heap [])) \<and>
   target ((demo_heap [])\<lparr>target := Some 7\<rparr>) = Some 7 \<and>
   depend demo_targets 0 ((demo_heap [])\<lparr>target := Some 7\<rparr>)
     = ([AddDep 7 0], Return () ((demo_heap [Some 7])\<lparr>target := Some 7\<rparr>))"
  using depend_delegates [of "demo_heap []" demo_targets 0]
    depend_delegates [of "(demo_heap [])\<lparr>target := Some 7\<rparr>" demo_targets 0]
  by (simp add: demo_heap_def demo_targets_def addSub_def)

subsection \<open>Notification\<close>
















subsection \<open>Identity\<close>

lemma ids_inv_init: "ids_inv (init_heap x)"
  by (simp add: ids_inv_def init_heap_def)

lemma ids_inv_new_Dep: "ids_inv h \<Longrightarrow> ids_inv (snd (new_Dep h))"
proof (cases "uid h < 2 ^ 53")
  case True
  assume "ids_inv h"
  with True have "sorted_wrt (<) (map id_Dep (deps h))" "\<forall>d \<in> set (deps h). id_Dep d < uid h"
    by (simp_all add: ids_inv_def)
  with True show ?thesis
    by (auto simp: ids_inv_def new_Dep_def increment_def sorted_wrt_append less_Suc_eq)
next
  case False
  then show ?thesis by (simp add: ids_inv_def new_Dep_def increment_def)
qed

lemma map_id_Dep_update:
  "id_Dep d' = id_Dep (ds ! d) \<Longrightarrow> map id_Dep (ds[d := d']) = map id_Dep ds"
  by (cases "d < length ds") (simp_all add: map_update list_update_same_conv list_update_beyond)

lemma ids_inv_cong:
  assumes "ids_inv h" "map id_Dep (deps h') = map id_Dep (deps h)" "uid h' = uid h"
  shows "ids_inv h'"
proof -
  have "ids_inv h'" if small: "uid h < 2 ^ 53"
  proof -
    have "id_Dep ` set (deps h') = id_Dep ` set (deps h)" using assms(2) by (metis set_map)
    moreover have "\<forall>n \<in> id_Dep ` set (deps h). n < uid h"
      using assms(1) small by (simp add: ids_inv_def)
    ultimately have "\<forall>n \<in> id_Dep ` set (deps h'). n < uid h'" using assms(3) by simp
    then have "\<forall>d \<in> set (deps h'). id_Dep d < uid h'" by simp
    then show ?thesis using assms small by (simp add: ids_inv_def)
  qed
  then show ?thesis using assms(3) by (cases "uid h < 2 ^ 53") (simp_all add: ids_inv_def)
qed

lemma ids_inv_addSub: "ids_inv h \<Longrightarrow> ids_inv (addSub d t h)"
  by (erule ids_inv_cong) (simp_all add: addSub_def map_id_Dep_update)

lemma ids_inv_set_slot: "ids_inv h \<Longrightarrow> ids_inv (set_slot d i v h)"
  by (erule ids_inv_cong) (simp_all add: set_slot_def map_id_Dep_update)

lemma ids_inv_depend:
  assumes "ids_inv h" and "\<And>t d s. ids_inv s \<Longrightarrow> ids_inv (state_of (addDep (T t) d s))"
  shows "ids_inv (state_of (snd (depend T d h)))"
  using assms by (simp add: depend_def split: option.splits)

lemma ids_inv_notify:
  assumes "ids_inv h" and "\<And>t s. ids_inv s \<Longrightarrow> ids_inv (state_of (update (T t) s))"
  shows "ids_inv (state_of (snd (notify T d h)))"
proof -
  have "ids_inv (state_of (snd (forEach (\<lambda>sub. update (T sub)) (live (subs (deps h ! d))) h)))"
    using assms by (rule forEach_invariant)
  then show ?thesis by (simp add: notify_def Let_def case_prod_beta)
qed

lemma ids_inv_exec_step:
  assumes "ids_inv h"
    and "\<And>t d s. ids_inv s \<Longrightarrow> ids_inv (state_of (addDep (T t) d s))"
    and "\<And>t s. ids_inv s \<Longrightarrow> ids_inv (state_of (update (T t) s))"
  shows "ids_inv (exec_step T st h)"
proof (cases st)
  case Construct
  then show ?thesis using assms(1) by (simp add: ids_inv_new_Dep)
next
  case (AddSub d t)
  then show ?thesis using assms(1) by (simp add: ids_inv_addSub)
next
  case (Depend d)
  then show ?thesis using ids_inv_depend [of h T d] assms by simp
next
  case (Notify d)
  then show ?thesis using ids_inv_notify [of h T d] assms by simp
next
  case (SetTarget t)
  then show ?thesis using assms(1) by (simp add: ids_inv_def)
next
  case (SetSlot d i v)
  then show ?thesis using assms(1) by (simp add: ids_inv_set_slot)
next
  case (SetRest x)
  then show ?thesis using assms(1) by (simp add: ids_inv_def)
qed

lemma ids_inv_exec:
  assumes "ids_inv h"
    and "\<And>t d s. ids_inv s \<Longrightarrow> ids_inv (state_of (addDep (T t) d s))"
    and "\<And>t s. ids_inv s \<Longrightarrow> ids_inv (state_of (update (T t) s))"
  shows "ids_inv (exec T prog h)"
  using assms(1) unfolding exec_def
proof (induction prog arbitrary: h)
  case Nil
  then show ?case by simp
next
  case (Cons st prog)
  have "ids_inv (exec_step T st h)" using Cons.prems assms(2,3) by (rule ids_inv_exec_step)
  from Cons.IH [OF this] show ?case by simp
qed

lemma new_Dep_id:
  "ids_inv h \<Longrightarrow> uid h < 2 ^ 53 \<Longrightarrow> new_Dep h = (r, h') \<Longrightarrow>
     r = length (deps h) \<and> length (deps h') = Suc r \<and> id_Dep (deps h' ! r) = uid h \<and>
     (\<forall>i < r. deps h' ! i = deps h ! i \<and> id_Dep (deps h ! i) < id_Dep (deps h' ! r))"
  by (auto simp: new_Dep_def ids_inv_def nth_append)

lemma demo_targets_ids_inv:
  "ids_inv s \<Longrightarrow> ids_inv (state_of (addDep (demo_targets t) d s))"
  "ids_inv s \<Longrightarrow> ids_inv (state_of (update (demo_targets t) s))"
proof -
  assume i: "ids_inv s"
  have r: "ids_inv (s\<lparr>rest := x\<rparr>)" for x using i by (simp add: ids_inv_def)
  show "ids_inv (state_of (addDep (demo_targets t) d s))"
    using i by (simp add: demo_targets_def ids_inv_addSub)
  show "ids_inv (state_of (update (demo_targets t) s))"
    using i r by (simp add: demo_targets_def ids_inv_addSub ids_inv_set_slot)
qed

lemma demo_prog_exec:
  "exec demo_targets demo_prog (init_heap []) =
     \<lparr>uid = 3, target = Some 5,
      deps = [\<lparr>id_Dep = 0, subs = [Some 5, None, Some 3]\<rparr>, \<lparr>id_Dep = 1, subs = []\<rparr>,
              \<lparr>id_Dep = 2, subs = []\<rparr>],
      rest = [5, 1]\<rparr>"
  by (simp add: exec_def demo_prog_def init_heap_def new_Dep_def depend_def notify_def live_def
      demo_targets_def addSub_def set_slot_def increment_def)

text \<open>
  Claim C7. In every state reached from the initial one by a client program (its
  callbacks never assigning an \<open>id\<close>) in which the counter is still below
  \<open>2 ^ 53\<close>, the ids of the cells rise strictly in the order of construction, so two
  distinct cells have distinct ids; and a cell constructed next gets an id greater than
  the id of every cell constructed before, which it leaves untouched.
\<close>

theorem ids_unique_and_increasing:
  assumes cb_addDep: "\<And>t d s. ids_inv s \<Longrightarrow> ids_inv (state_of (addDep (T t) d s))"
    and cb_update: "\<And>t s. ids_inv s \<Longrightarrow> ids_inv (state_of (update (T t) s))"
    and h: "h = exec T prog (init_heap x)"
    and small: "uid h < 2 ^ 53"
    and r: "new_Dep h = (r, h')"
  shows "(\<forall>i j. i < j \<and> j < length (deps h) \<longrightarrow> id_Dep (deps h ! i) < id_Dep (deps h ! j)) \<and>
         (\<forall>i j. i < length (deps h) \<and> j < length (deps h) \<and> i \<noteq> j
                \<longrightarrow> id_Dep (deps h ! i) \<noteq> id_Dep (deps h ! j)) \<and>
         (\<forall>i < length (deps h). deps h' ! i = deps h ! i \<and> id_Dep (deps h ! i) < id_Dep (deps h' ! r))"
proof -
  have inv: "ids_inv h" unfolding h using ids_inv_init cb_addDep cb_update by (rule ids_inv_exec)
  then have s: "sorted_wrt (<) (map id_Dep (deps h))" using small by (simp add: ids_inv_def)
  have a: "\<forall>i j. i < j \<and> j < length (deps h) \<longrightarrow> id_Dep (deps h ! i) < id_Dep (deps h ! j)"
    using s by (auto simp: sorted_wrt_iff_nth_less)
  have b: "\<forall>i j. i < length (deps h) \<and> j < length (deps h) \<and> i \<noteq> j
                \<longrightarrow> id_Dep (deps h ! i) \<noteq> id_Dep (deps h ! j)"
  proof (intro allI impI)
    fix i j assume "i < length (deps h) \<and> j < length (deps h) \<and> i \<noteq> j"
    then have "i < j \<or> j < i" "i < length (deps h)" "j < length (deps h)" by auto
    then show "id_Dep (deps h ! i) \<noteq> id_Dep (deps h ! j)"
      using a by (metis less_irrefl)
  qed
  from new_Dep_id [OF inv small r] have c:
    "\<forall>i < length (deps h). deps h' ! i = deps h ! i \<and> id_Dep (deps h ! i) < id_Dep (deps h' ! r)"
    by blast
  from a b c show ?thesis by blast
qed

theorem ids_unique_and_increasing_witness:
  "uid (exec demo_targets demo_prog (init_heap [])) < 2 ^ 53 \<and>
   map id_Dep (deps (exec demo_targets demo_prog (init_heap []))) = [0, 1, 2] \<and>
   new_Dep (exec demo_targets demo_prog (init_heap []))
     = (3, snd (new_Dep (exec demo_targets demo_prog (init_heap [])))) \<and>
   map id_Dep (deps (snd (new_Dep (exec demo_targets demo_prog (init_heap []))))) = [0, 1, 2, 3] \<and>
   id_Dep (deps (exec demo_targets demo_prog (init_heap [])) ! 0)
     < id_Dep (deps (exec demo_targets demo_prog (init_heap [])) ! 2) \<and>
   id_Dep (deps (exec demo_targets demo_prog (init_heap [])) ! 2)
     < id_Dep (deps (snd (new_Dep (exec demo_targets demo_prog (init_heap [])))) ! 3)"
  using ids_unique_and_increasing [of demo_targets "exec demo_targets demo_prog (init_heap [])"
      demo_prog "[]" 3 "snd (new_Dep (exec demo_targets demo_prog (init_heap [])))",
      OF demo_targets_ids_inv refl]
  by (simp add: demo_prog_exec new_Dep_def increment_def)

section \<open>Properties of the component module\<close>

subsection \<open>Running sequenced code\<close>

lemma runs_ret: "runs (ret a) s [] a s"
  by (simp add: runs_def ret_def)

lemma runs_read: "runs (read g) s [] (g s) s"
  by (simp add: runs_def read_def)

lemma runs_modify: "runs (modify g) s [] () (g s)"
  by (simp add: runs_def modify_def)

lemma runs_call: "g s = Return a s' \<Longrightarrow> runs (call ev g) s [ev] a s'"
  by (simp add: runs_def call_def)

lemma runs_bnd:
  "runs m s tr a s1 \<Longrightarrow> runs (f a) s1 tr' b s2 \<Longrightarrow> runs (bnd m f) s (tr @ tr') b s2"
  by (simp add: runs_def bnd_def)

lemma runs_setCurrentInstance:
  "runs (setCurrentInstance X i) w [ScopeOn (scope (instances w ! i))] ()
     (scope_on X (scope (instances w ! i)) (w\<lparr>currentInstance := Some i\<rparr>))"
  by (simp add: runs_def setCurrentInstance_def bnd_def modify_def read_def call_def field_def)

lemma runs_unsetCurrentInstance_Some:
  "currentInstance w = Some i \<Longrightarrow>
   runs (unsetCurrentInstance X) w [ScopeOff (scope (instances w ! i))] ()
     ((scope_off X (scope (instances w ! i)) w)\<lparr>currentInstance := None\<rparr>)"
  by (simp add: runs_def unsetCurrentInstance_def bnd_def modify_def read_def call_def field_def)

lemma runs_unsetCurrentInstance_None:
  "currentInstance w = None \<Longrightarrow> runs (unsetCurrentInstance X) w [] () w"
  by (simp add: runs_def unsetCurrentInstance_def bnd_def modify_def read_def ret_def)

subsection \<open>The current instance\<close>

text \<open>
  Claim C10. \<open>getCurrentInstance\<close> returns the value of \<open>currentInstance\<close>.
  \<open>unsetCurrentInstance\<close> always returns, with \<open>currentInstance\<close> empty. When the
  slot is empty already it makes no call and leaves the state as it was; when the slot
  holds an instance it makes exactly one call, \<open>off()\<close> on that instance's scope, and
  then clears the slot.
\<close>

theorem unsetCurrentInstance_guarded:
  "getCurrentInstance w = currentInstance w \<and>
   returns (snd (unsetCurrentInstance X w)) \<and>
   currentInstance (state_of (snd (unsetCurrentInstance X w))) = None \<and>
   (currentInstance w = None \<longrightarrow> unsetCurrentInstance X w = ([], Return () w)) \<and>
   (\<forall>i. currentInstance w = Some i \<longrightarrow>
      unsetCurrentInstance X w =
        ([ScopeOff (scope (instances w ! i))],
         Return () ((scope_off X (scope (instances w ! i)) w)\<lparr>currentInstance := None\<rparr>)))"
proof -
  have a: "returns (snd (unsetCurrentInstance X w)) \<and>
      currentInstance (state_of (snd (unsetCurrentInstance X w))) = None"
  proof (cases "currentInstance w")
    case None
    from runs_unsetCurrentInstance_None [OF this, of X] None show ?thesis
      by (simp add: runs_def)
  next
    case (Some i)
    from runs_unsetCurrentInstance_Some [OF this, of X] show ?thesis
      by (simp add: runs_def)
  qed
  have b: "currentInstance w = None \<longrightarrow> unsetCurrentInstance X w = ([], Return () w)"
    using runs_unsetCurrentInstance_None [of w X] by (simp add: runs_def)
  have c: "\<forall>i. currentInstance w = Some i \<longrightarrow>
      unsetCurrentInstance X w =
        ([ScopeOff (scope (instances w ! i))],
         Return () ((scope_off X (scope (instances w ! i)) w)\<lparr>currentInstance := None\<rparr>))"
    using runs_unsetCurrentInstance_Some [of w _ X] by (simp add: runs_def)
  from a b c show ?thesis by (simp add: getCurrentInstance_def)
qed

theorem unsetCurrentInstance_guarded_witness:
  "currentInstance demo_runtime = None \<and>
   getCurrentInstance demo_runtime = None \<and>
   unsetCurrentInstance demo_externs demo_runtime = ([], Return () demo_runtime) \<and>
   currentInstance (demo_runtime\<lparr>currentInstance := Some 0\<rparr>) = Some 0 \<and>
   getCurrentInstance (demo_runtime\<lparr>currentInstance := Some 0\<rparr>) = Some 0 \<and>
   unsetCurrentInstance demo_externs (demo_runtime\<lparr>currentInstance := Some 0\<rparr>) =
     ([ScopeOff 7], Return () (demo_runtime\<lparr>program := [6]\<rparr>))"
  using unsetCurrentInstance_guarded [of demo_runtime demo_externs]
    unsetCurrentInstance_guarded [of "demo_runtime\<lparr>currentInstance := Some 0\<rparr>" demo_externs]
  by (simp add: demo_runtime_def demo_externs_def)

subsection \<open>Setting a component up\<close>

lemma runs_unsetCurrentInstance:
  "runs (unsetCurrentInstance X) w (unset_calls w) () (unset_state X w)"
proof (cases "currentInstance w")
  case None
  from runs_unsetCurrentInstance_None [OF this, of X] None show ?thesis
    by (simp add: unset_calls_def unset_state_def)
next
  case (Some j)
  from runs_unsetCurrentInstance_Some [OF this, of X] Some show ?thesis
    by (simp add: unset_calls_def unset_state_def)
qed

lemma runs_createSetupContext:
  "runs (createSetupContext i) w [] (SetupContext (emit (instances w ! i))) w"
  by (simp add: createSetupContext_def runs_def bnd_def read_def ret_def field_def)

lemma runs_store:
  "runs (if isFunction r
         then modify (assign i (\<lambda>x. x\<lparr>render_i := Some r\<rparr>))
         else if isObject r
         then modify (assign i (\<lambda>x. x\<lparr>setupState := ProxyRefs r\<rparr>))
         else ret ()) w []  ()
        (if isFunction r then assign i (\<lambda>x. x\<lparr>render_i := Some r\<rparr>) w
         else if isObject r then assign i (\<lambda>x. x\<lparr>setupState := ProxyRefs r\<rparr>) w
         else w)"
  by (simp add: runs_modify runs_ret)

text \<open>
  Claim C8, as amended. Take an instance whose options object has a \<open>setup\<close>
  function when \<open>setupComponent\<close> reads it, and outside code whose calls return. Then
  \<open>setupComponent\<close> goes through the states \<open>w1\<close> to \<open>w10\<close> below and returns.
  Before \<open>setup\<close> it makes the instance the current one and applies \<open>on()\<close> to the
  instance's scope (\<open>w4\<close>); \<open>setup\<close> is applied to that state; after \<open>setup\<close>
  and the storing of its result it applies \<open>unsetCurrentInstance\<close> (\<open>w7\<close>). It does
  the same around \<open>applyOptions\<close> (\<open>w9\<close> and the final state). No call of
  \<open>EffectScope.run\<close> is made. What \<open>unsetCurrentInstance\<close> leaves is
  \<open>off()\<close> applied to the scope of the instance that is current at that moment: one
  call of \<open>off()\<close> on the instance's own scope when \<open>setup\<close>, or
  \<open>applyOptions\<close>, returned with the instance still the current one and its scope
  field as it was, and no call at all when it returned with no current instance.
\<close>

theorem setupComponent_scope_on_off:
  assumes init: "initProps X i (vnode_props (instances w ! i)) w = Return () w1"
    and w2: "w2 = assign i (\<lambda>x. x\<lparr>proxy := Some (Proxy (ctx x))\<rparr>) w1"
    and has_setup: "setup_fn (options w2 ! type (instances w1 ! i)) = Some f"
    and w3: "w3 = assign i (\<lambda>x. x\<lparr>setupContext := Some (SetupContext (emit (instances w2 ! i)))\<rparr>) w2"
    and w4: "w4 = scope_on X (scope (instances w3 ! i)) (w3\<lparr>currentInstance := Some i\<rparr>)"
    and returned: "call_setup X f (props (instances w4 ! i)) (SetupContext (emit (instances w2 ! i))) w4
                  = Return r w5"
    and w6: "w6 = (if isFunction r then assign i (\<lambda>x. x\<lparr>render_i := Some r\<rparr>) w5
                   else if isObject r then assign i (\<lambda>x. x\<lparr>setupState := ProxyRefs r\<rparr>) w5
                   else w5)"
    and w7: "w7 = unset_state X w6"
    and compiled: "\<forall>c t. compiles (type (instances w1 ! i)) w7 = Some (c, t) \<longrightarrow>
                     call_compile X c t w7 = Return rr wc"
    and w8: "w8 = (case compiles (type (instances w1 ! i)) w7 of
                     None \<Rightarrow> w7
                   | Some ct \<Rightarrow> assign i (\<lambda>x. x\<lparr>render_i := Some rr\<rparr>) wc)"
    and w9: "w9 = scope_on X (scope (instances w8 ! i)) (w8\<lparr>currentInstance := Some i\<rparr>)"
    and applied: "applyOptions X i w9 = Return () w10"
  shows "setupComponent X i w =
           ([InitProps i, ScopeOn (scope (instances w3 ! i)), Setup f] @ unset_calls w6 @
            (case compiles (type (instances w1 ! i)) w7 of
               None \<Rightarrow> []
             | Some (c, t) \<Rightarrow> [Compile c t]) @
            [ScopeOn (scope (instances w8 ! i)), ApplyOptions i] @ unset_calls w10,
            Return () (unset_state X w10)) \<and>
         (currentInstance w5 = Some i \<longrightarrow>
            unset_calls w6 = [ScopeOff (scope (instances w6 ! i))] \<and>
            w7 = (scope_off X (scope (instances w6 ! i)) w6)\<lparr>currentInstance := None\<rparr>) \<and>
         (currentInstance w5 = None \<longrightarrow> unset_calls w6 = [] \<and> w7 = w6) \<and>
         (currentInstance w10 = Some i \<longrightarrow>
            unset_calls w10 = [ScopeOff (scope (instances w10 ! i))] \<and>
            unset_state X w10 = (scope_off X (scope (instances w10 ! i)) w10)\<lparr>currentInstance := None\<rparr>) \<and>
         (currentInstance w10 = None \<longrightarrow> unset_calls w10 = [] \<and> unset_state X w10 = w10) \<and>
         (\<forall>s. ScopeRun s \<notin> set (fst (setupComponent X i w))) \<and>
         currentInstance (unset_state X w10) = None"
proof -
  let ?C = "type (instances w1 ! i)"
  let ?sc = "SetupContext (emit (instances w2 ! i))"
  have r1: "runs (call (InitProps i) (initProps X i (field i vnode_props w))) w [InitProps i] () w1"
    using init by (simp add: runs_def call_def field_def)
  have rC: "runs (read (field i type)) w1 [] ?C w1"
    using runs_read [of "field i type" w1] by (simp add: field_def)
  have r2: "runs (modify (assign i (\<lambda>x. x\<lparr>proxy := Some (Proxy (ctx x))\<rparr>))) w1 [] () w2"
    unfolding w2 by (rule runs_modify)
  have rS: "runs (read (option_of ?C setup_fn)) w2 [] (Some f) w2"
    using runs_read [of "option_of ?C setup_fn" w2] has_setup by (simp add: option_of_def)
  have rc: "runs (createSetupContext i) w2 [] ?sc w2" by (rule runs_createSetupContext)
  have r3: "runs (modify (assign i (\<lambda>x. x\<lparr>setupContext := Some ?sc\<rparr>))) w2 [] () w3"
    unfolding w3 by (rule runs_modify)
  have r4: "runs (setCurrentInstance X i) w3 [ScopeOn (scope (instances w3 ! i))] () w4"
    unfolding w4 by (rule runs_setCurrentInstance)
  have rp: "runs (read (field i props)) w4 [] (props (instances w4 ! i)) w4"
    using runs_read [of "field i props" w4] by (simp add: field_def)
  have r5: "runs (call (Setup f) (call_setup X f (props (instances w4 ! i)) ?sc)) w4 [Setup f] r w5"
    using returned by (rule runs_call)
  have r6: "runs (if isFunction r
         then modify (assign i (\<lambda>x. x\<lparr>render_i := Some r\<rparr>))
         else if isObject r
         then modify (assign i (\<lambda>x. x\<lparr>setupState := ProxyRefs r\<rparr>))
         else ret ()) w5 ([]::event list) () w6"
    unfolding w6 by (rule runs_store)
  have r7: "runs (unsetCurrentInstance X) w6 (unset_calls w6) () w7"
    unfolding w7 by (rule runs_unsetCurrentInstance)
  have setup_phase: "runs
      (case Some f of
         None \<Rightarrow> ret ()
       | Some setup \<Rightarrow>
           bnd (createSetupContext i) (\<lambda>setupContext.
           bnd (modify (assign i (\<lambda>i. i\<lparr>setupContext := Some setupContext\<rparr>))) (\<lambda>_.
           bnd (setCurrentInstance X i) (\<lambda>_.
           bnd (read (field i props)) (\<lambda>p.
           bnd (call (Setup setup) (call_setup X setup p setupContext)) (\<lambda>setupResult.
           bnd (if isFunction setupResult
                then modify (assign i (\<lambda>i. i\<lparr>render_i := Some setupResult\<rparr>))
                else if isObject setupResult
                then modify (assign i (\<lambda>i. i\<lparr>setupState := ProxyRefs setupResult\<rparr>))
                else ret ()) (\<lambda>_.
           unsetCurrentInstance X)))))))
      w2 ([] @ [] @ [ScopeOn (scope (instances w3 ! i))] @ [] @ [Setup f] @ [] @ unset_calls w6) () w7"
    apply (simp only: option.case)
    apply (rule runs_bnd, rule rc)
    apply (rule runs_bnd, rule r3)
    apply (rule runs_bnd, rule r4)
    apply (rule runs_bnd, rule rp)
    apply (rule runs_bnd, rule r5)
    apply (rule runs_bnd, rule r6)
    apply (rule r7)
    done
  have rk: "runs (read compile) w7 [] (compile w7) w7" by (rule runs_read)
  let ?mid = "case compiles ?C w7 of None \<Rightarrow> [] | Some (c, t) \<Rightarrow> [Compile c t]"
  have compile_phase: "runs
      (case compile w7 of
         None \<Rightarrow> ret ()
       | Some c \<Rightarrow>
           bnd (read (option_of ?C render)) (\<lambda>rendering.
           if rendering = None
           then bnd (read (option_of ?C template)) (\<lambda>t.
                let template = (case t of None \<Rightarrow> [] | Some t \<Rightarrow> t)
                in if template \<noteq> []
                   then bnd (call (Compile c template) (call_compile X c template)) (\<lambda>r.
                        modify (assign i (\<lambda>i. i\<lparr>render_i := Some r\<rparr>)))
                   else ret ())
           else ret ()))
      w7 ?mid () w8"
  proof (cases "compiles ?C w7")
    case None
    then show ?thesis unfolding w8
      by (auto simp: compiles_def runs_def ret_def bnd_def read_def option_of_def
          split: option.splits if_splits)
  next
    case (Some ct)
    obtain c t where ct: "ct = (c, t)" by (cases ct)
    with Some compiled have cc: "call_compile X c t w7 = Return rr wc" by simp
    from Some ct have g: "compile w7 = Some c" "render (options w7 ! ?C) = None"
      "template (options w7 ! ?C) = Some t" "t \<noteq> []"
      by (auto simp: compiles_def split: option.splits if_splits)
    show ?thesis unfolding w8 Some
      using g cc ct
      by (simp add: runs_def ret_def bnd_def read_def call_def modify_def option_of_def)
  qed
  have r8: "runs (setCurrentInstance X i) w8 [ScopeOn (scope (instances w8 ! i))] () w9"
    unfolding w9 by (rule runs_setCurrentInstance)
  have r9: "runs (call (ApplyOptions i) (applyOptions X i)) w9 [ApplyOptions i] () w10"
    using applied by (rule runs_call)
  have r10: "runs (unsetCurrentInstance X) w10 (unset_calls w10) () (unset_state X w10)"
    by (rule runs_unsetCurrentInstance)
  have "runs (setupComponent X i) w
      ([] @ [InitProps i] @ [] @ [] @ [] @
       ([] @ [] @ [ScopeOn (scope (instances w3 ! i))] @ [] @ [Setup f] @ [] @ unset_calls w6) @
       [] @ ?mid @ [ScopeOn (scope (instances w8 ! i))] @ [ApplyOptions i] @ unset_calls w10)
      () (unset_state X w10)"
    unfolding setupComponent_def
    apply (rule runs_bnd, rule runs_read)
    apply (rule runs_bnd, rule r1)
    apply (rule runs_bnd, rule rC)
    apply (rule runs_bnd, rule r2)
    apply (rule runs_bnd, rule rS)
    apply (rule runs_bnd, rule setup_phase)
    apply (rule runs_bnd, rule rk)
    apply (rule runs_bnd, rule compile_phase)
    apply (rule runs_bnd, rule r8)
    apply (rule runs_bnd, rule r9)
    apply (rule r10)
    done
  then have eq: "setupComponent X i w =
           ([InitProps i, ScopeOn (scope (instances w3 ! i)), Setup f] @ unset_calls w6 @
            ?mid @ [ScopeOn (scope (instances w8 ! i)), ApplyOptions i] @ unset_calls w10,
            Return () (unset_state X w10))"
    by (simp add: runs_def)
  have c6: "currentInstance w6 = currentInstance w5"
    unfolding w6 by (simp add: assign_def)
  have u: "\<forall>s. ScopeRun s \<notin> set (unset_calls v)" for v :: "'a runtime"
    by (simp add: unset_calls_def split: option.splits)
  have m: "\<forall>s. ScopeRun s \<notin> set ?mid" by (simp split: option.splits prod.splits)
  have a: "currentInstance w5 = Some i \<longrightarrow>
      unset_calls w6 = [ScopeOff (scope (instances w6 ! i))] \<and>
      w7 = (scope_off X (scope (instances w6 ! i)) w6)\<lparr>currentInstance := None\<rparr>"
    and b: "currentInstance w5 = None \<longrightarrow> unset_calls w6 = [] \<and> w7 = w6"
    using c6 by (simp_all add: unset_calls_def unset_state_def w7)
  have c: "currentInstance w10 = Some i \<longrightarrow>
      unset_calls w10 = [ScopeOff (scope (instances w10 ! i))] \<and>
      unset_state X w10 = (scope_off X (scope (instances w10 ! i)) w10)\<lparr>currentInstance := None\<rparr>"
    and d: "currentInstance w10 = None \<longrightarrow> unset_calls w10 = [] \<and> unset_state X w10 = w10"
    by (simp_all add: unset_calls_def unset_state_def)
  have e: "\<forall>s. ScopeRun s \<notin> set (fst (setupComponent X i w))"
    unfolding eq using u m by simp
  have f: "currentInstance (unset_state X w10) = None"
    by (simp add: unset_state_def split: option.splits)
  from eq a b c d e f show ?thesis by blast
qed

lemma demo_initProps:
  "initProps demo_externs i p w = Return () (w\<lparr>program := program w @ [1]\<rparr>)"
  by (simp add: demo_externs_def)

lemma demo_call_setup:
  "call_setup demo_externs f p c w = Return (Object 9) (w\<lparr>program := program w @ [2]\<rparr>)"
  by (simp add: demo_externs_def)

lemma demo_call_compile:
  "\<forall>c t. compiles C w = Some (c, t) \<longrightarrow>
     call_compile demo_externs c t w = Return (Function 8) (w\<lparr>program := program w @ [3]\<rparr>)"
  by (simp add: demo_externs_def)

lemma demo_applyOptions:
  "applyOptions demo_externs i w = Return () (w\<lparr>program := program w @ [4]\<rparr>)"
  by (simp add: demo_externs_def)

lemma demo_has_setup:
  "setup_fn (options (assign 0 g (demo_runtime\<lparr>program := x\<rparr>)) !
     type (instances (demo_runtime\<lparr>program := x\<rparr>) ! 0)) = Some 5"
  by (simp add: demo_runtime_def assign_def)

theorem setupComponent_scope_on_off_witness:
  "fst (setupComponent demo_externs 0 demo_runtime) =
     [InitProps 0, ScopeOn 7, Setup 5, ScopeOff 7, Compile 4 ''<p/>'',
      ScopeOn 7, ApplyOptions 0, ScopeOff 7] \<and>
   returns (snd (setupComponent demo_externs 0 demo_runtime)) \<and>
   program (state_of (snd (setupComponent demo_externs 0 demo_runtime))) = [1, 5, 2, 6, 3, 5, 4, 6] \<and>
   currentInstance (state_of (snd (setupComponent demo_externs 0 demo_runtime))) = None \<and>
   setupState (instances (state_of (snd (setupComponent demo_externs 0 demo_runtime))) ! 0)
     = ProxyRefs (Object 9) \<and>
   render_i (instances (state_of (snd (setupComponent demo_externs 0 demo_runtime))) ! 0)
     = Some (Function 8)"
  using setupComponent_scope_on_off
    [where X = demo_externs and i = 0 and w = demo_runtime,
     OF demo_initProps refl demo_has_setup refl refl demo_call_setup refl refl
        demo_call_compile refl refl demo_applyOptions]
  by (simp add: demo_runtime_def demo_externs_def assign_def unset_calls_def unset_state_def
      compiles_def)

lemma nesting_setupComponent:
  "fst (setupComponent nesting_externs 0 nested_runtime) =
     [InitProps 0, ScopeOn 7, Setup 5, Compile 4 ''<p/>'', ScopeOn 7, ApplyOptions 0, ScopeOff 7] \<and>
   program (state_of (snd (setupComponent nesting_externs 0 nested_runtime)))
     = [1, 107, 1, 5, 4, 6, 3, 107, 4, 207]"
  by (simp add: setupComponent_def setCurrentInstance_def unsetCurrentInstance_def
      createSetupContext_def bnd_def read_def modify_def call_def ret_def field_def option_of_def
      assign_def nesting_externs_def nested_runtime_def demo_externs_def demo_runtime_def)

text \<open>
  Claim C8 as stated has \<open>off()\<close> called on the instance's scope after \<open>setup\<close>
  returns, for every instance with a \<open>setup\<close> function. A \<open>setup\<close> function
  during which another component is set up returns with no current instance, since the
  inner \<open>setupComponent\<close> ends with \<open>unsetCurrentInstance\<close>; the guard of the outer
  \<open>unsetCurrentInstance\<close> then skips \<open>off()\<close>. Scope 7 is entered before
  \<open>setup\<close> and not left after it: of the calls made on it, two are \<open>on()\<close> and
  one, the one after \<open>applyOptions\<close>, is \<open>off()\<close>.
\<close>

theorem setupComponent_scope_on_off_counterexample:
  "setup_fn (options nested_runtime ! type (instances nested_runtime ! 0)) = Some 5 \<and>
   fst (setupComponent nesting_externs 0 nested_runtime) =
     [InitProps 0, ScopeOn 7, Setup 5, Compile 4 ''<p/>'', ScopeOn 7, ApplyOptions 0, ScopeOff 7] \<and>
   returns (snd (setupComponent nesting_externs 0 nested_runtime)) \<and>
   count_list (fst (setupComponent nesting_externs 0 nested_runtime)) (ScopeOn 7) = 2 \<and>
   count_list (fst (setupComponent nesting_externs 0 nested_runtime)) (ScopeOff 7) = 1 \<and>
   program (state_of (snd (setupComponent nesting_externs 0 nested_runtime)))
     = [1, 107, 1, 5, 4, 6, 3, 107, 4, 207]"
proof -
  have r: "returns (snd (setupComponent nesting_externs 0 nested_runtime))"
    by (simp add: setupComponent_def setCurrentInstance_def unsetCurrentInstance_def
      createSetupContext_def bnd_def read_def modify_def call_def ret_def field_def option_of_def
      assign_def nesting_externs_def nested_runtime_def demo_externs_def demo_runtime_def)
  have s: "setup_fn (options nested_runtime ! type (instances nested_runtime ! 0)) = Some 5"
    by (simp add: nested_runtime_def demo_runtime_def)
  from r s nesting_setupComponent show ?thesis by simp
qed

section \<open>Properties of the reactive effect\<close>

subsection \<open>Field access after the primitive updates\<close>

lemma modify_effect_fields [simp]:
  "deps (modify_effect e f h) = deps h" "target (modify_effect e f h) = target h"
  "uid (modify_effect e f h) = uid h"
  "length (effects (rest (modify_effect e f h))) = length (effects (rest h))"
  "vars (rest (modify_effect e f h)) = vars (rest h)"
  by (simp_all add: modify_effect_def)

lemma effect_modify_effect:
  "e' < length (effects (rest h)) \<Longrightarrow>
   effect (modify_effect e f h) e' = (if e' = e then f (effect h e) else effect h e')"
  by (simp add: modify_effect_def effect_def nth_list_update)

lemma addSub_fields [simp]:
  "rest (addSub c t h) = rest h" "target (addSub c t h) = target h"
  "length (deps (addSub c t h)) = length (deps h)"
  "effect (addSub c t h) e = effect h e"
  by (simp_all add: addSub_def effect_def)

lemma addSub_subs:
  "c' < length (deps h) \<Longrightarrow>
   subs (deps (addSub c t h) ! c') = (if c' = c then subs (deps h ! c) @ [Some t] else subs (deps h ! c'))"
  by (simp add: addSub_def nth_list_update)

lemma unsubscribe_fields [simp]:
  "rest (unsubscribe e c h) = rest h" "target (unsubscribe e c h) = target h"
  "length (deps (unsubscribe e c h)) = length (deps h)"
  "effect (unsubscribe e c h) e' = effect h e'"
  by (simp_all add: unsubscribe_def effect_def)

lemma unsubscribe_subs:
  "c' < length (deps h) \<Longrightarrow>
   subs (deps (unsubscribe e c h) ! c') =
     (if c' = c then map (\<lambda>s. if s = Some e then None else s) (subs (deps h ! c))
      else subs (deps h ! c'))"
  by (simp add: unsubscribe_def nth_list_update)

lemma fold_unsubscribe_fields [simp]:
  "rest (fold (unsubscribe e) cs h) = rest h"
  "target (fold (unsubscribe e) cs h) = target h"
  "length (deps (fold (unsubscribe e) cs h)) = length (deps h)"
  by (induction cs arbitrary: h) simp_all

lemma fold_unsubscribe_effect [simp]: "effect (fold (unsubscribe e) cs h) e' = effect h e'"
  by (simp add: effect_def)

lemma tombstone_twice:
  "map (\<lambda>s. if s = Some e then None else s) (map (\<lambda>s. if s = Some e then None else s) ss)
     = map (\<lambda>s. if s = Some e then None else s) ss"
  by (induction ss) simp_all

lemma fold_unsubscribe_subs:
  "c' < length (deps h) \<Longrightarrow>
   subs (deps (fold (unsubscribe e) cs h) ! c') =
     (if c' \<in> set cs then map (\<lambda>s. if s = Some e then None else s) (subs (deps h ! c'))
      else subs (deps h ! c'))"
proof (induction cs arbitrary: h)
  case Nil
  then show ?case by simp
next
  case (Cons c cs)
  have "c' < length (deps (unsubscribe e c h))" using Cons.prems by simp
  from Cons.IH [OF this] have
    "subs (deps (fold (unsubscribe e) (c # cs) h) ! c') =
       (if c' \<in> set cs
        then map (\<lambda>s. if s = Some e then None else s) (subs (deps (unsubscribe e c h) ! c'))
        else subs (deps (unsubscribe e c h) ! c'))" by simp
  also have "subs (deps (unsubscribe e c h) ! c') =
     (if c' = c then map (\<lambda>s. if s = Some e then None else s) (subs (deps h ! c))
      else subs (deps h ! c'))" using Cons.prems by (rule unsubscribe_subs)
  finally show ?case
    by (cases "c' = c"; cases "c' \<in> set cs"; simp add: tombstone_twice)
qed

lemma count_tombstoned_same:
  "count_list (map (\<lambda>s. if s = Some e then None else s) ss) (Some e) = 0"
  by (induction ss) simp_all

lemma count_tombstoned_other:
  "t \<noteq> e \<Longrightarrow>
   count_list (map (\<lambda>s. if s = Some e then None else s) ss) (Some t) = count_list ss (Some t)"
  by (induction ss) simp_all

lemma count_tombstoned:
  "count_list (map (\<lambda>s. if s = Some e then None else s) ss) (Some t) =
     (if t = e then 0 else count_list ss (Some t))"
  by (simp add: count_tombstoned_same count_tombstoned_other)

lemma count_list_snoc: "count_list (xs @ [x]) y = count_list xs y + (if x = y then 1 else 0)"
  by (induction xs) simp_all

subsection \<open>Consistency is about links and slots only\<close>

lemma consistent_cong:
  assumes "consistent h"
    and "length (effects (rest h')) = length (effects (rest h))"
    and "\<forall>e < length (effects (rest h)). links (effect h' e) = links (effect h e)"
    and "length (deps h') = length (deps h)"
    and "\<forall>cell < length (deps h). subs (deps h' ! cell) = subs (deps h ! cell)"
  shows "consistent h'"
proof -
  have l: "linked h' e cell = linked h e cell" for e cell
    using assms(2,3) by (auto simp: linked_def)
  show ?thesis using assms unfolding consistent_def l by simp
qed

lemma consistent_target: "consistent (h\<lparr>target := t\<rparr>) = consistent h"
  by (simp add: consistent_def linked_def effect_def)

lemma consistent_mem:
  "consistent h \<Longrightarrow> cell < length (deps h) \<Longrightarrow>
   Some e \<in> set (subs (deps h ! cell)) \<longleftrightarrow> linked h e cell"
proof -
  assume "consistent h" "cell < length (deps h)"
  then have "count_list (subs (deps h ! cell)) (Some e) = (if linked h e cell then 1 else 0)"
    by (simp add: consistent_def)
  then show ?thesis by (metis count_list_0_iff zero_neq_one)
qed

subsection \<open>Linking\<close>

lemma link_fields [simp]:
  "deps (link e c h) = deps h" "target (link e c h) = target h"
  "length (effects (rest (link e c h))) = length (effects (rest h))"
  by (simp_all add: link_def)

lemma effect_link:
  "e' < length (effects (rest h)) \<Longrightarrow>
   effect (link e c h) e' =
     (if e' = e then (effect h e)\<lparr>links := links (effect h e) @ [c]\<rparr> else effect h e')"
  by (simp add: link_def effect_modify_effect)

lemma linked_link:
  "e < length (effects (rest h)) \<Longrightarrow>
   linked (addSub c e (link e c h)) e' c' \<longleftrightarrow> linked h e' c' \<or> (e' = e \<and> c' = c)"
  by (auto simp: linked_def effect_link split: if_splits)

lemma effect_addDep_consistent:
  assumes c: "consistent h" and e: "e < length (effects (rest h))" and cell: "cell < length (deps h)"
  shows "consistent (effect_addDep e cell h)"
proof (cases "cell \<in> set (links (effect h e))")
  case True
  with c show ?thesis by (simp add: effect_addDep_def)
next
  case False
  let ?h = "addSub cell e (link e cell h)"
  from False e have nl: "\<not> linked h e cell" by (simp add: linked_def)
  have 1: "distinct (links (effect ?h e')) \<and>
      (\<forall>c' \<in> set (links (effect ?h e')). c' < length (deps ?h))"
    if "e' < length (effects (rest ?h))" for e'
  proof -
    from that have e': "e' < length (effects (rest h))" by simp
    with c have d: "distinct (links (effect h e'))"
      and v: "\<forall>c' \<in> set (links (effect h e')). c' < length (deps h)"
      by (simp_all add: consistent_def)
    show ?thesis using d v False cell e' by (auto simp: effect_link)
  qed
  have 2: "count_list (subs (deps ?h ! c')) (Some t) = (if linked ?h t c' then 1 else 0)"
    if "c' < length (deps ?h)" for c' t
  proof -
    from that have c': "c' < length (deps h)" by simp
    with c have old: "count_list (subs (deps h ! c')) (Some t) = (if linked h t c' then 1 else 0)"
      by (simp add: consistent_def)
    have s: "subs (deps ?h ! c') =
        (if c' = cell then subs (deps h ! cell) @ [Some e] else subs (deps h ! c'))"
      using c' by (simp add: addSub_subs)
    show ?thesis
      using old nl by (auto simp: s linked_link [OF e] count_list_snoc)
  qed
  from 1 2 have "consistent ?h" unfolding consistent_def by blast
  with False show ?thesis by (simp add: effect_addDep_def)
qed

lemma effect_addDep_frame:
  "target (effect_addDep e cell h) = target h"
  "length (deps (effect_addDep e cell h)) = length (deps h)"
  "length (effects (rest (effect_addDep e cell h))) = length (effects (rest h))"
  by (simp_all add: effect_addDep_def)

lemma effect_effect_addDep:
  "e' < length (effects (rest h)) \<Longrightarrow>
   effect (effect_addDep e cell h) e' =
     (if e' = e \<and> cell \<notin> set (links (effect h e))
      then (effect h e)\<lparr>links := links (effect h e) @ [cell]\<rparr> else effect h e')"
  by (simp add: effect_addDep_def effect_link)

lemma effect_addDep_links:
  "e < length (effects (rest h)) \<Longrightarrow>
   set (links (effect (effect_addDep e cell h) e)) = insert cell (set (links (effect h e)))"
  by (auto simp: effect_effect_addDep)

subsection \<open>Unlinking\<close>

lemma cleanup_frame:
  "target (cleanup e h) = target h"
  "length (deps (cleanup e h)) = length (deps h)"
  "length (effects (rest (cleanup e h))) = length (effects (rest h))"
  by (simp_all add: cleanup_def)

lemma effect_cleanup:
  "e' < length (effects (rest h)) \<Longrightarrow>
   effect (cleanup e h) e' = (if e' = e then (effect h e)\<lparr>links := []\<rparr> else effect h e')"
  by (simp add: cleanup_def effect_modify_effect)

lemma cleanup_subs:
  "cell < length (deps h) \<Longrightarrow>
   subs (deps (cleanup e h) ! cell) =
     (if cell \<in> set (links (effect h e))
      then map (\<lambda>s. if s = Some e then None else s) (subs (deps h ! cell))
      else subs (deps h ! cell))"
  by (simp add: cleanup_def fold_unsubscribe_subs)

lemma cleanup_consistent:
  assumes c: "consistent h" and e: "e < length (effects (rest h))"
  shows "consistent (cleanup e h)"
proof -
  let ?h = "cleanup e h"
  have l: "linked ?h t cell \<longleftrightarrow> linked h t cell \<and> t \<noteq> e" for t cell
    by (auto simp: linked_def cleanup_frame effect_cleanup split: if_splits)
  have 1: "distinct (links (effect ?h e')) \<and>
      (\<forall>c' \<in> set (links (effect ?h e')). c' < length (deps ?h))"
    if "e' < length (effects (rest ?h))" for e'
  proof -
    from that have e': "e' < length (effects (rest h))" by (simp add: cleanup_frame)
    with c have "distinct (links (effect h e'))"
      and "\<forall>c' \<in> set (links (effect h e')). c' < length (deps h)"
      by (simp_all add: consistent_def)
    then show ?thesis using e' by (simp add: effect_cleanup cleanup_frame)
  qed
  have 2: "count_list (subs (deps ?h ! cell)) (Some t) = (if linked ?h t cell then 1 else 0)"
    if "cell < length (deps ?h)" for cell t
  proof -
    from that have cell: "cell < length (deps h)" by (simp add: cleanup_frame)
    with c have old: "count_list (subs (deps h ! cell)) (Some t) = (if linked h t cell then 1 else 0)"
      for t by (simp add: consistent_def)
    show ?thesis
    proof (cases "cell \<in> set (links (effect h e))")
      case True
      then show ?thesis
        using old [of t] by (simp add: cleanup_subs [OF cell] count_tombstoned l)
    next
      case False
      with e have "\<not> linked h e cell" by (simp add: linked_def)
      with old [of e] have "count_list (subs (deps h ! cell)) (Some e) = 0" by simp
      with False show ?thesis
        using old [of t] by (cases "t = e") (simp_all add: cleanup_subs [OF cell] l)
    qed
  qed
  from 1 2 show ?thesis unfolding consistent_def by blast
qed

subsection \<open>How states evolve\<close>

lemma evolves_refl: "evolves X h h"
  by (simp add: evolves_def)

lemma evolves_mono: "evolves X h h' \<Longrightarrow> X \<subseteq> Y \<Longrightarrow> evolves Y h h'"
  unfolding evolves_def by blast

lemma evolves_trans:
  assumes "evolves X h h1" and "evolves X h1 h2"
  shows "evolves X h h2"
proof -
  have "fn (effect h2 x) = fn (effect h x) \<and>
        started (effect h x) \<le> started (effect h2 x) \<and>
        (active (effect h2 x) \<longrightarrow> active (effect h x)) \<and>
        (x \<notin> X \<longrightarrow> started (effect h2 x) = started (effect h x) \<longrightarrow> active (effect h2 x) \<longrightarrow>
           links (effect h2 x) = links (effect h x))"
    if x: "x < length (effects (rest h))" for x
  proof -
    from x assms(1) have x1: "x < length (effects (rest h1))" by (simp add: evolves_def)
    from assms(1) x have a: "fn (effect h1 x) = fn (effect h x)"
      "started (effect h x) \<le> started (effect h1 x)"
      "active (effect h1 x) \<longrightarrow> active (effect h x)"
      "x \<notin> X \<longrightarrow> started (effect h1 x) = started (effect h x) \<longrightarrow> active (effect h1 x) \<longrightarrow>
           links (effect h1 x) = links (effect h x)"
      by (simp_all add: evolves_def)
    from assms(2) x1 have b: "fn (effect h2 x) = fn (effect h1 x)"
      "started (effect h1 x) \<le> started (effect h2 x)"
      "active (effect h2 x) \<longrightarrow> active (effect h1 x)"
      "x \<notin> X \<longrightarrow> started (effect h2 x) = started (effect h1 x) \<longrightarrow> active (effect h2 x) \<longrightarrow>
           links (effect h2 x) = links (effect h1 x)"
      by (simp_all add: evolves_def)
    from a b show ?thesis by auto
  qed
  moreover from assms have "length (deps h2) = length (deps h)"
    "length (effects (rest h2)) = length (effects (rest h))" by (simp_all add: evolves_def)
  ultimately show ?thesis by (simp add: evolves_def)
qed

lemma evolves_target: "evolves X h (h'\<lparr>target := t\<rparr>) = evolves X h h'"
  by (simp add: evolves_def effect_def)

lemma evolves_started:
  "evolves {e} h h' \<Longrightarrow> started (effect h' e) \<noteq> started (effect h e) \<Longrightarrow> evolves {} h h'"
  unfolding evolves_def by auto

lemma evolves_lengths:
  "evolves X h h' \<Longrightarrow> length (deps h') = length (deps h)"
  "evolves X h h' \<Longrightarrow> length (effects (rest h')) = length (effects (rest h))"
  by (simp_all add: evolves_def)

lemma well_formed_evolves:
  "well_formed h \<Longrightarrow> evolves X h h' \<Longrightarrow> consistent h' \<Longrightarrow> well_formed h'"
  by (simp add: well_formed_def evolves_def)

lemma well_formed_target: "well_formed (h\<lparr>target := t\<rparr>) = well_formed h"
  by (simp add: well_formed_def consistent_target) (simp add: effect_def)

lemma evolves_effect_addDep:
  "e < length (effects (rest h)) \<Longrightarrow> evolves {e} h (effect_addDep e cell h)"
  by (simp add: evolves_def effect_addDep_frame effect_effect_addDep)

lemma evolves_cleanup:
  "e < length (effects (rest h)) \<Longrightarrow> evolves {e} h (cleanup e h)"
  by (simp add: evolves_def cleanup_frame effect_cleanup)

lemma stop_consistent:
  assumes "consistent h" and "e < length (effects (rest h))"
  shows "consistent (stop e h)"
proof -
  from assms have "consistent (cleanup e h)" by (rule cleanup_consistent)
  then show ?thesis
    unfolding stop_def
    by (rule consistent_cong) (simp_all add: effect_modify_effect)
qed

lemma stop_target [simp]: "target (stop e h) = target h"
  by (simp add: stop_def cleanup_frame)

lemma evolves_stop:
  "e < length (effects (rest h)) \<Longrightarrow> evolves {} h (stop e h)"
  by (simp add: evolves_def stop_def cleanup_frame effect_modify_effect effect_cleanup)

lemma assign_consistent:
  "consistent (h\<lparr>rest := (rest h)\<lparr>vars := v\<rparr>\<rparr>) = consistent h"
  by (simp add: consistent_def linked_def effect_def)

lemma evolves_assign: "evolves X h (h\<lparr>rest := (rest h)\<lparr>vars := v\<rparr>\<rparr>)"
  by (simp add: evolves_def effect_def)

subsection \<open>What a run tracks\<close>

lemma tracks_refl: "consistent h \<Longrightarrow> target h = Some e \<Longrightarrow> tracks e h [] h"
  by (simp add: tracks_def evolves_refl)

lemma tracks_trans:
  assumes 1: "tracks e h tr1 h1" and 2: "tracks e h1 tr2 h2" and e: "e < length (effects (rest h))"
  shows "tracks e h (tr1 @ tr2) h2"
proof -
  from 1 2 have ev: "evolves {e} h h1" "evolves {e} h1 h2" by (simp_all add: tracks_def)
  then have ev2: "evolves {e} h h2" by (rule evolves_trans)
  from ev(1) e have e1: "e < length (effects (rest h1))" by (simp add: evolves_def)
  from ev(1) e have m1: "started (effect h e) \<le> started (effect h1 e)"
    "active (effect h1 e) \<longrightarrow> active (effect h e)" by (simp_all add: evolves_def)
  from ev(2) e1 have m2: "started (effect h1 e) \<le> started (effect h2 e)"
    "active (effect h2 e) \<longrightarrow> active (effect h1 e)" by (simp_all add: evolves_def)
  have "set (links (effect h2 e)) = set (links (effect h e)) \<union> {cell. AddDep e cell \<in> set (tr1 @ tr2)}"
    if s: "started (effect h2 e) = started (effect h e)" and a: "active (effect h2 e)"
  proof -
    from s m1 m2 have s1: "started (effect h1 e) = started (effect h e)"
      and s2: "started (effect h2 e) = started (effect h1 e)" by simp_all
    from a m2 have a1: "active (effect h1 e)" by simp
    from 1 s1 a1 have "set (links (effect h1 e)) = set (links (effect h e)) \<union> {cell. AddDep e cell \<in> set tr1}"
      by (simp add: tracks_def)
    moreover from 2 s2 a have "set (links (effect h2 e)) = set (links (effect h1 e)) \<union> {cell. AddDep e cell \<in> set tr2}"
      by (simp add: tracks_def)
    ultimately show ?thesis by auto
  qed
  with 2 ev2 show ?thesis by (simp add: tracks_def)
qed

lemma tracks_quiet:
  assumes "consistent h'" and "evolves {} h h'" and "target h' = Some e"
    and "\<forall>cell. AddDep e cell \<notin> set tr" and "e < length (effects (rest h))"
  shows "tracks e h tr h'"
proof -
  from assms(2) have "evolves {e} h h'" by (rule evolves_mono) simp
  moreover from assms(2,5) have
    "started (effect h' e) = started (effect h e) \<longrightarrow> active (effect h' e) \<longrightarrow>
       links (effect h' e) = links (effect h e)" by (simp add: evolves_def)
  ultimately show ?thesis using assms(1,3,4) by (simp add: tracks_def)
qed

lemma tracks_addDep:
  assumes "consistent h" and "target h = Some e" and "e < length (effects (rest h))"
    and "cell < length (deps h)"
  shows "tracks e h [AddDep e cell] (effect_addDep e cell h)"
  using assms
  by (simp add: tracks_def effect_addDep_consistent evolves_effect_addDep effect_addDep_frame
      effect_addDep_links)

lemma tracks_well_formed: "well_formed h \<Longrightarrow> tracks e h tr h' \<Longrightarrow> well_formed h'"
  by (auto simp: tracks_def intro: well_formed_evolves)

subsection \<open>Writes and nested runs\<close>

lemma live_set: "t \<in> set (live ss) \<longleftrightarrow> Some t \<in> set ss"
  by (induction ss) (auto simp: live_def)

lemma notify_nests:
  assumes T: "nests T" and wf: "well_formed h" and cell: "cell < length (deps h)"
    and n: "notify T cell h = (tr, c)"
  shows "consistent (state_of c) \<and> evolves {} h (state_of c) \<and> target (state_of c) = target h \<and>
         (\<forall>t d. AddDep t d \<notin> set tr)"
proof -
  let ?P = "\<lambda>s. well_formed s \<and> evolves {} h s \<and> target s = target h"
  let ?xs = "live (subs (deps h ! cell))"
  from notify_forEach [OF n] obtain tr' where
    f: "forEach (\<lambda>sub. update (T sub)) ?xs h = (tr', c)" and tr: "tr = map Update tr'" by blast
  have "?P (state_of (snd (forEach (\<lambda>sub. update (T sub)) ?xs h)))"
  proof (rule forEach_invariant_on)
    show "?P h" using wf by (simp add: evolves_refl)
  next
    fix x s
    assume x: "x \<in> set ?xs" and s: "?P s"
    from wf have "consistent h" by (simp add: well_formed_def)
    from consistent_mem [OF this cell, of x] x have "x < length (effects (rest h))"
      by (simp add: live_set linked_def)
    with s have xs: "x < length (effects (rest s))" by (simp add: evolves_def)
    from T s xs have u: "consistent (state_of (update (T x) s))"
      "evolves {} s (state_of (update (T x) s))"
      "target (state_of (update (T x) s)) = target s" unfolding nests_def by blast+
    from s u(2) have "evolves {} h (state_of (update (T x) s))" by (blast intro: evolves_trans)
    moreover from s u(1,2) have "well_formed (state_of (update (T x) s))"
      by (blast intro: well_formed_evolves)
    ultimately show "?P (state_of (update (T x) s))" using u(3) s by simp
  qed
  with f tr show ?thesis by (auto simp: well_formed_def)
qed

lemma execute_tracks:
  assumes T: "nests T"
  shows "well_formed h \<Longrightarrow> target h = Some e \<Longrightarrow> e < length (effects (rest h)) \<Longrightarrow>
         code_ok (length (deps h)) (length (effects (rest h))) code \<Longrightarrow>
         execute T code h = (tr, c) \<Longrightarrow> tracks e h tr (state_of c)"
proof (induction code arbitrary: h tr c)
  case Done
  then show ?case by (auto simp: tracks_refl well_formed_def)
next
  case (Raise x)
  then show ?case by (auto simp: tracks_refl well_formed_def)
next
  case (Read cell k)
  let ?h1 = "effect_addDep e cell h"
  from Read.prems have cell: "cell < length (deps h)" by simp
  from Read.prems(1) have ch: "consistent h" by (simp add: well_formed_def)
  from ch Read.prems(2,3) cell have t1: "tracks e h [AddDep e cell] ?h1" by (rule tracks_addDep)
  from T Read.prems(2) have d: "depend T cell h = ([AddDep e cell], Return () ?h1)"
    by (simp add: depend_def nests_def)
  obtain tr' c' where k: "execute T k ?h1 = (tr', c')" by (cases "execute T k ?h1")
  with d Read.prems(5) have res: "tr = [AddDep e cell] @ tr'" "c = c'"
    by (simp_all add: andThen_def)
  have "tracks e ?h1 tr' (state_of c')"
  proof (rule Read.IH [OF _ _ _ _ k])
    show "well_formed ?h1" using Read.prems(1) t1 by (rule tracks_well_formed)
    show "target ?h1 = Some e" using Read.prems(2) by (simp add: effect_addDep_frame)
    show "e < length (effects (rest ?h1))" using Read.prems(3) by (simp add: effect_addDep_frame)
    show "code_ok (length (deps ?h1)) (length (effects (rest ?h1))) k"
      using Read.prems(4) by (simp add: effect_addDep_frame)
  qed
  with t1 show ?case unfolding res using Read.prems(3) by (rule tracks_trans)
next
  case (Write cell k)
  from Write.prems have cell: "cell < length (deps h)" by simp
  obtain tr1 c1 where n: "notify T cell h = (tr1, c1)" by (cases "notify T cell h")
  let ?h1 = "state_of c1"
  from notify_nests [OF T Write.prems(1) cell n] have
    g: "consistent ?h1" "evolves {} h ?h1" "target ?h1 = target h" "\<forall>t d. AddDep t d \<notin> set tr1"
    by simp_all
  from g Write.prems(2,3) have t1: "tracks e h tr1 ?h1" by (intro tracks_quiet) simp_all
  show ?case
  proof (cases c1)
    case (Throw x s)
    with n Write.prems(5) have "tr = tr1" "c = c1" by (simp_all add: andThen_def)
    with t1 show ?thesis by simp
  next
    case (Return u s)
    obtain tr' c' where k: "execute T k s = (tr', c')" by (cases "execute T k s")
    with n Return Write.prems(5) have res: "tr = tr1 @ tr'" "c = c'" by (simp_all add: andThen_def)
    from Return have s: "?h1 = s" by simp
    have "tracks e s tr' (state_of c')"
    proof (rule Write.IH [OF _ _ _ _ k])
      show "well_formed s" using Write.prems(1) t1 unfolding s by (rule tracks_well_formed)
      show "target s = Some e" using g(3) Write.prems(2) by (simp add: s)
      show "e < length (effects (rest s))" using g(2) Write.prems(3) by (simp add: s evolves_def)
      show "code_ok (length (deps s)) (length (effects (rest s))) k"
        using g(2) Write.prems(4) by (simp add: s evolves_def)
    qed
    with t1 show ?thesis unfolding res s using Write.prems(3) by (rule tracks_trans)
  qed
next
  case (Run t k)
  from Run.prems have t: "t < length (effects (rest h))" by simp
  let ?c1 = "update (T t) h"
  let ?h1 = "state_of ?c1"
  from T Run.prems(1) t have
    g: "consistent ?h1" "evolves {} h ?h1" "target ?h1 = target h" unfolding nests_def by blast+
  from g Run.prems(2,3) have t1: "tracks e h [] ?h1" by (intro tracks_quiet) simp_all
  show ?case
  proof (cases ?c1)
    case (Throw x s)
    with Run.prems(5) have "tr = []" "c = ?c1" by (simp_all add: andThen_def)
    with t1 show ?thesis by simp
  next
    case (Return u s)
    obtain tr' c' where k: "execute T k s = (tr', c')" by (cases "execute T k s")
    with Return Run.prems(5) have res: "tr = [] @ tr'" "c = c'" by (simp_all add: andThen_def)
    from Return have s: "?h1 = s" by simp
    have "tracks e s tr' (state_of c')"
    proof (rule Run.IH [OF _ _ _ _ k])
      show "well_formed s" using Run.prems(1) t1 unfolding s by (rule tracks_well_formed)
      show "target s = Some e" using g(3) Run.prems(2) by (simp add: s)
      show "e < length (effects (rest s))" using g(2) Run.prems(3) by (simp add: s evolves_def)
      show "code_ok (length (deps s)) (length (effects (rest s))) k"
        using g(2) Run.prems(4) by (simp add: s evolves_def)
    qed
    with t1 show ?thesis unfolding res s using Run.prems(3) by (rule tracks_trans)
  qed
next
  case (Stop t k)
  from Stop.prems have t: "t < length (effects (rest h))" by simp
  let ?h1 = "stop t h"
  from Stop.prems(1) have ch: "consistent h" by (simp add: well_formed_def)
  have g: "consistent ?h1" "evolves {} h ?h1" "target ?h1 = Some e"
    using ch t Stop.prems(2) by (simp_all add: stop_consistent evolves_stop)
  from g Stop.prems(3) have t1: "tracks e h [] ?h1" by (intro tracks_quiet) simp_all
  from Stop.prems(5) have k: "execute T k ?h1 = (tr, c)" by simp
  have "tracks e ?h1 tr (state_of c)"
  proof (rule Stop.IH [OF _ _ _ _ k])
    show "well_formed ?h1" using Stop.prems(1) t1 by (rule tracks_well_formed)
    show "target ?h1 = Some e" by (rule g(3))
    show "e < length (effects (rest ?h1))" using g(2) Stop.prems(3) by (simp add: evolves_def)
    show "code_ok (length (deps ?h1)) (length (effects (rest ?h1))) k"
      using g(2) Stop.prems(4) by (simp add: evolves_def)
  qed
  with t1 have "tracks e h ([] @ tr) (state_of c)" using Stop.prems(3) by (rule tracks_trans)
  then show ?case by simp
next
  case (Assign f k)
  let ?h1 = "h\<lparr>rest := (rest h)\<lparr>vars := f (vars (rest h))\<rparr>\<rparr>"
  from Assign.prems(1) have ch: "consistent h" by (simp add: well_formed_def)
  have g: "consistent ?h1" "evolves {} h ?h1" "target ?h1 = Some e"
    using ch Assign.prems(2) by (simp_all add: assign_consistent evolves_assign)
  from g Assign.prems(3) have t1: "tracks e h [] ?h1" by (intro tracks_quiet) simp_all
  from Assign.prems(5) have k: "execute T k ?h1 = (tr, c)" by simp
  have "tracks e ?h1 tr (state_of c)"
  proof (rule Assign.IH [OF _ _ _ _ k])
    show "well_formed ?h1" using Assign.prems(1) t1 by (rule tracks_well_formed)
    show "target ?h1 = Some e" by (rule g(3))
    show "e < length (effects (rest ?h1))" using Assign.prems(3) by simp
    show "code_ok (length (deps ?h1)) (length (effects (rest ?h1))) k"
      using Assign.prems(4) by simp
  qed
  with t1 have "tracks e h ([] @ tr) (state_of c)" using Assign.prems(3) by (rule tracks_trans)
  then show ?case by simp
next
  case (Test p k1 k2)
  show ?case
  proof (cases "p (vars (rest h))")
    case True
    with Test.prems(5) have "execute T k1 h = (tr, c)" by simp
    with Test.prems show ?thesis by (intro Test.IH(1)) simp_all
  next
    case False
    with Test.prems(5) have "execute T k2 h = (tr, c)" by simp
    with Test.prems show ?thesis by (intro Test.IH(2)) simp_all
  qed
qed

lemma run_stopped: "\<not> active (effect h e) \<Longrightarrow> run T e h = ([], Return () h)"
  by (simp add: run_def)

lemma run_active:
  assumes "active (effect h e)"
    and "h2 = (cleanup e (modify_effect e (\<lambda>x. x\<lparr>started := started x + 1\<rparr>) h))\<lparr>target := Some e\<rparr>"
    and "execute T (fn (effect h2 e)) h2 = (tr, c)"
  shows "fst (run T e h) = tr" and "state_of (snd (run T e h)) = (state_of c)\<lparr>target := target h\<rparr>"
    and "returns (snd (run T e h)) = returns c"
  using assms by (cases c; simp add: run_def Let_def cleanup_frame)+

lemma run_tracks:
  assumes T: "nests T" and wf: "well_formed h" and e: "e < length (effects (rest h))"
    and a: "active (effect h e)"
    and r: "run T e h = (tr, c)"
  shows "consistent (state_of c) \<and> evolves {} h (state_of c) \<and> target (state_of c) = target h \<and>
         (started (effect (state_of c) e) = started (effect h e) + 1 \<longrightarrow>
          active (effect (state_of c) e) \<longrightarrow>
            set (links (effect (state_of c) e)) = {cell. AddDep e cell \<in> set tr})"
proof -
  let ?h0 = "modify_effect e (\<lambda>x. x\<lparr>started := started x + 1\<rparr>) h"
  let ?h1 = "cleanup e ?h0"
  let ?h2 = "?h1\<lparr>target := Some e\<rparr>"
  obtain tr3 c3 where x: "execute T (fn (effect ?h2 e)) ?h2 = (tr3, c3)"
    by (cases "execute T (fn (effect ?h2 e)) ?h2")
  let ?h3 = "state_of c3"
  from run_active [OF a refl x] r have res: "tr = tr3" "state_of c = ?h3\<lparr>target := target h\<rparr>"
    by simp_all
  from wf have ch: "consistent h" by (simp add: well_formed_def)
  have e0: "e < length (effects (rest ?h0))" using e by simp
  have c0: "consistent ?h0"
    using ch by (rule consistent_cong) (simp_all add: effect_modify_effect)
  have ev0: "evolves {e} h ?h0" by (simp add: evolves_def effect_modify_effect)
  have ev1: "evolves {e} ?h0 ?h1" using e0 by (rule evolves_cleanup)
  from ev0 ev1 have ev2: "evolves {e} h ?h2" unfolding evolves_target by (rule evolves_trans)
  have c2: "consistent ?h2" using c0 e0 by (simp add: consistent_target cleanup_consistent)
  from wf ev2 c2 have wf2: "well_formed ?h2" by (rule well_formed_evolves)
  have e2: "e < length (effects (rest ?h2))" using e by (simp add: cleanup_frame)
  have s2: "started (effect ?h2 e) = started (effect h e) + 1" "links (effect ?h2 e) = []"
    using e by (simp_all add: effect_def cleanup_def modify_effect_def)
  from wf2 e2 have ok: "code_ok (length (deps ?h2)) (length (effects (rest ?h2))) (fn (effect ?h2 e))"
    by (simp add: well_formed_def)
  have t3: "tracks e ?h2 tr3 ?h3"
    using T wf2 _ e2 ok x by (rule execute_tracks) simp
  then have c3: "consistent ?h3" and ev3: "evolves {e} ?h2 ?h3" by (simp_all add: tracks_def)
  from ev2 ev3 have ev: "evolves {e} h ?h3" by (rule evolves_trans)
  from ev3 e2 have "started (effect ?h2 e) \<le> started (effect ?h3 e)"
    unfolding evolves_def by blast
  with s2 have "started (effect ?h3 e) \<noteq> started (effect h e)" by simp
  with ev have ev': "evolves {} h ?h3" by (rule evolves_started)
  have l: "set (links (effect ?h3 e)) = {cell. AddDep e cell \<in> set tr3}"
    if "started (effect ?h3 e) = started (effect h e) + 1" "active (effect ?h3 e)"
    using t3 that s2 by (simp add: tracks_def)
  have eff: "effect (?h3\<lparr>target := target h\<rparr>) = effect ?h3" by (simp add: effect_def fun_eq_iff)
  show ?thesis
    unfolding res eff using c3 ev' l by (simp add: consistent_target evolves_target)
qed

lemma run_nests:
  assumes T: "nests T" and wf: "well_formed h" and e: "e < length (effects (rest h))"
  shows "consistent (state_of (snd (run T e h))) \<and> evolves {} h (state_of (snd (run T e h))) \<and>
         target (state_of (snd (run T e h))) = target h"
proof (cases "active (effect h e)")
  case True
  obtain tr c where r: "run T e h = (tr, c)" by (cases "run T e h")
  from run_tracks [OF T wf e True r] r show ?thesis by simp
next
  case False
  with wf show ?thesis by (simp add: run_stopped evolves_refl well_formed_def)
qed

lemma effect_targets_addDep:
  "addDep (effect_targets n t) cell h = Return () (effect_addDep t cell h)"
  by (cases n) simp_all

lemma nests_effect_targets: "nests (effect_targets n)"
proof (induction n)
  case 0
  show ?case by (simp add: nests_def evolves_refl well_formed_def)
next
  case (Suc n)
  show ?case
    unfolding nests_def
    using run_nests [OF Suc] by (simp add: effect_targets_addDep del: effect_targets.simps) simp
qed

subsection \<open>Links after a run\<close>

lemma all_less_Suc: "(\<forall>i < Suc n. P i) \<longleftrightarrow> (\<forall>i < n. P i) \<and> P n"
  by (auto simp: less_Suc_eq)

lemma ex_less_Suc: "(\<exists>i < Suc n. P i) \<longleftrightarrow> (\<exists>i < n. P i) \<or> P n"
  by (auto simp: less_Suc_eq)

lemma linked_ex:
  "linked h e cell \<longleftrightarrow>
     (\<exists>i < length (effects (rest h)). i = e \<and> cell \<in> set (links (effects (rest h) ! i)))"
  by (auto simp: linked_def effect_def)

lemmas world_checks =
  well_formed_def consistent_def linked_ex effect_def effect_world_def all_less_Suc ex_less_Suc
  eval_nat_numeral


lemmas effect_steps =
  run_def cleanup_def modify_effect_def effect_def depend_def notify_def live_def andThen_def
  effect_addDep_def link_def addSub_def unsubscribe_def effect_world_def







subsection \<open>Idempotent linking\<close>

lemma distinct_count_list: "distinct xs \<Longrightarrow> x \<in> set xs \<Longrightarrow> count_list xs x = 1"
  by (induction xs) auto

lemma execute_reads:
  "only_reads code \<Longrightarrow> consistent h \<Longrightarrow> target h = Some e \<Longrightarrow> e < length (effects (rest h)) \<Longrightarrow>
   \<forall>cell \<in> set (reads code). cell < length (deps h) \<Longrightarrow>
   consistent (state_of (snd (execute (effect_targets n) code h))) \<and>
   length (deps (state_of (snd (execute (effect_targets n) code h)))) = length (deps h) \<and>
   length (effects (rest (state_of (snd (execute (effect_targets n) code h))))) =
     length (effects (rest h)) \<and>
   set (links (effect h e)) \<subseteq> set (links (effect (state_of (snd (execute (effect_targets n) code h))) e)) \<and>
   (\<not> raises code \<longrightarrow>
      set (reads code) \<subseteq> set (links (effect (state_of (snd (execute (effect_targets n) code h))) e)))"
proof (induction code arbitrary: h)
  case (Read cell k)
  let ?h1 = "effect_addDep e cell h"
  from Read.prems have cell: "cell < length (deps h)" by simp
  from Read.prems(3) have d: "depend (effect_targets n) cell h = ([AddDep e cell], Return () ?h1)"
    by (simp add: depend_def effect_targets_addDep)
  have x: "state_of (snd (execute (effect_targets n) (Read cell k) h)) =
      state_of (snd (execute (effect_targets n) k ?h1))"
    by (cases "execute (effect_targets n) k ?h1") (simp add: d andThen_def)
  have l1: "set (links (effect ?h1 e)) = insert cell (set (links (effect h e)))"
    using Read.prems(4) by (rule effect_addDep_links)
  have "consistent (state_of (snd (execute (effect_targets n) k ?h1))) \<and>
   length (deps (state_of (snd (execute (effect_targets n) k ?h1)))) = length (deps ?h1) \<and>
   length (effects (rest (state_of (snd (execute (effect_targets n) k ?h1))))) =
     length (effects (rest ?h1)) \<and>
   set (links (effect ?h1 e)) \<subseteq> set (links (effect (state_of (snd (execute (effect_targets n) k ?h1))) e)) \<and>
   (\<not> raises k \<longrightarrow>
      set (reads k) \<subseteq> set (links (effect (state_of (snd (execute (effect_targets n) k ?h1))) e)))"
  proof (rule Read.IH)
    show "only_reads k" using Read.prems(1) by simp
    show "consistent ?h1" using Read.prems(2,4) cell by (rule effect_addDep_consistent)
    show "target ?h1 = Some e" using Read.prems(3) by (simp add: effect_addDep_frame)
    show "e < length (effects (rest ?h1))" using Read.prems(4) by (simp add: effect_addDep_frame)
    show "\<forall>cell \<in> set (reads k). cell < length (deps ?h1)"
      using Read.prems(5) by (simp add: effect_addDep_frame)
  qed
  then show ?case unfolding x l1 by (simp add: effect_addDep_frame)
qed simp_all

text \<open>
  Claim C2. From a state with consistent links and an effect as the active target, after
  any sequence of \<open>depend()\<close> calls, also one cut short by a raise, no cell holds any
  subscriber in more than one slot and the effect's link set has no cell twice; when the
  sequence was not cut short, every cell read holds the effect in exactly one slot and
  is in the effect's link set exactly once. The duplicates are suppressed by the
  effect's \<open>addDep\<close>: \<open>addSub\<close> itself appends without a check. The first two hold
  after any code at all of a wrapped function, writes and nested runs included, also when
  it throws, from a well-formed state.
\<close>

theorem depend_links_at_most_once:
  assumes "consistent h" and "target h = Some e" and "e < length (effects (rest h))"
  shows "(only_reads code \<and> (\<forall>cell \<in> set (reads code). cell < length (deps h)) \<longrightarrow>
            (\<forall>cell < length (deps h). \<forall>t.
               count_list (subs (deps (state_of (snd (execute (effect_targets n) code h))) ! cell))
                 (Some t) \<le> 1) \<and>
            distinct (links (effect (state_of (snd (execute (effect_targets n) code h))) e)) \<and>
            (\<not> raises code \<longrightarrow>
               (\<forall>cell \<in> set (reads code).
                  count_list (subs (deps (state_of (snd (execute (effect_targets n) code h))) ! cell))
                    (Some e) = 1 \<and>
                  count_list (links (effect (state_of (snd (execute (effect_targets n) code h))) e))
                    cell = 1))) \<and>
         (well_formed h \<and> code_ok (length (deps h)) (length (effects (rest h))) code \<longrightarrow>
            (\<forall>cell < length (deps h). \<forall>t.
               count_list (subs (deps (state_of (snd (execute (effect_targets n) code h))) ! cell))
                 (Some t) \<le> 1) \<and>
            distinct (links (effect (state_of (snd (execute (effect_targets n) code h))) e)))"
proof -
  let ?h = "state_of (snd (execute (effect_targets n) code h))"
  have 12: "(\<forall>cell < length (deps h). \<forall>t. count_list (subs (deps ?h ! cell)) (Some t) \<le> 1) \<and>
      distinct (links (effect ?h e))"
    if c: "consistent ?h" and f: "length (deps ?h) = length (deps h)"
      "length (effects (rest ?h)) = length (effects (rest h))"
    using c f assms(3) by (simp add: consistent_def)
  have a: "(\<forall>cell < length (deps h). \<forall>t. count_list (subs (deps ?h ! cell)) (Some t) \<le> 1) \<and>
      distinct (links (effect ?h e)) \<and>
      (\<not> raises code \<longrightarrow>
         (\<forall>cell \<in> set (reads code).
            count_list (subs (deps ?h ! cell)) (Some e) = 1 \<and>
            count_list (links (effect ?h e)) cell = 1))"
    if o: "only_reads code" and v: "\<forall>cell \<in> set (reads code). cell < length (deps h)"
  proof -
    from execute_reads [OF o assms v, of n]
    have c: "consistent ?h" and f: "length (deps ?h) = length (deps h)"
      "length (effects (rest ?h)) = length (effects (rest h))"
      and r: "\<not> raises code \<longrightarrow> set (reads code) \<subseteq> set (links (effect ?h e))" by simp_all
    have 3: "count_list (subs (deps ?h ! cell)) (Some e) = 1 \<and> count_list (links (effect ?h e)) cell = 1"
      if nr: "\<not> raises code" and cell: "cell \<in> set (reads code)" for cell
    proof -
      from r nr cell have mem: "cell \<in> set (links (effect ?h e))" by blast
      then have "linked ?h e cell" using f assms(3) by (simp add: linked_def)
      moreover have "cell < length (deps ?h)" using v cell f by simp
      ultimately have "count_list (subs (deps ?h ! cell)) (Some e) = 1"
        using c by (simp add: consistent_def)
      moreover from 12 [OF c f] have "distinct (links (effect ?h e))" by simp
      from distinct_count_list [OF this mem] have "count_list (links (effect ?h e)) cell = 1" .
      ultimately show ?thesis by simp
    qed
    from 12 [OF c f] 3 show ?thesis by blast
  qed
  have b: "(\<forall>cell < length (deps h). \<forall>t. count_list (subs (deps ?h ! cell)) (Some t) \<le> 1) \<and>
      distinct (links (effect ?h e))"
    if wf: "well_formed h" and ok: "code_ok (length (deps h)) (length (effects (rest h))) code"
  proof -
    obtain tr c where x: "execute (effect_targets n) code h = (tr, c)"
      by (cases "execute (effect_targets n) code h")
    from execute_tracks [OF nests_effect_targets wf assms(2,3) ok x] x
    have "consistent ?h" "evolves {e} h ?h" by (simp_all add: tracks_def)
    then show ?thesis by (intro 12) (simp_all add: evolves_def)
  qed
  from a b show ?thesis by blast
qed

lemma rereader_execute:
  "execute (effect_targets 0) rereader rereader_world =
     ([AddDep 0 0, AddDep 0 0, AddDep 0 1, AddDep 0 0],
      Return ()
        ((effect_world [[Some 0], [Some 0]]
            [\<lparr>active = True, links = [0, 1], fn = rereader, started = 0\<rparr>] ())
          \<lparr>target := Some 0\<rparr>))"
  by (simp add: effect_steps rereader_world_def rereader_def)

lemma rereader_world_well_formed: "well_formed rereader_world"
  by (simp add: world_checks rereader_world_def rereader_def)

theorem depend_links_at_most_once_witness:
  "consistent rereader_world \<and> well_formed rereader_world \<and> target rereader_world = Some 0 \<and>
   only_reads rereader \<and> \<not> raises rereader \<and> reads rereader = [0, 0, 1, 0] \<and>
   code_ok (length (deps rereader_world)) (length (effects (rest rereader_world))) rereader \<and>
   fst (execute (effect_targets 0) rereader rereader_world) =
     [AddDep 0 0, AddDep 0 0, AddDep 0 1, AddDep 0 0] \<and>
   count_list (subs (deps (state_of (snd (execute (effect_targets 0) rereader rereader_world))) ! 0))
     (Some 0) = 1 \<and>
   count_list (links (effect (state_of (snd (execute (effect_targets 0) rereader rereader_world))) 0))
     0 = 1 \<and>
   distinct (links (effect (state_of (snd (execute (effect_targets 0) rereader rereader_world))) 0))"
  using depend_links_at_most_once [of rereader_world 0 rereader 0] rereader_world_well_formed
  by (simp add: rereader_execute well_formed_def)
    (simp add: rereader_world_def rereader_def effect_world_def effect_def)

end
